theory Spec2Isabelle
  imports Complex_Main
begin

section \<open>pomoxis.common.util: read selection and region parsing\<close>

text \<open>
  The development embeds two functions of \<^verbatim>\<open>pomoxis/common/util.py\<close>:
  \<^verbatim>\<open>extract_long_reads\<close> (the selection of the longest reads of a file, by
  percentage or by a budget of bases) and \<^verbatim>\<open>parse_regions\<close> (the decoding of
  region strings with the regular expression \<^verbatim>\<open>_region_decoder_\<close>).

  Exceptions are values: a function that may raise returns \<open>error + 'a\<close>, with
  \<open>Inl\<close> carrying the exception.
\<close>

datatype error = AttributeError | KeyError | ValueError | OverflowError | TypeError

subsection \<open>numpy: argsort, argpartition, slices, int64 scalars\<close>

text \<open>
  \<^verbatim>\<open>np.argsort(a)\<close> returns the indices that sort \<open>a\<close>; the default sort is not
  stable, so the order of indices of equal elements is not fixed by numpy. The result is
  therefore a parameter of the model, constrained by \<open>is_argsort\<close>: a permutation of
  \<open>0..<length a\<close> along which the elements ascend. \<open>argsort_stable\<close> is one such
  result, used to run the model.
\<close>

definition is_permutation :: "nat \<Rightarrow> nat list \<Rightarrow> bool" where
  "is_permutation n p \<longleftrightarrow> sort p = [0..<n]"

definition is_argsort :: "int list \<Rightarrow> nat list \<Rightarrow> bool" where
  "is_argsort a p \<longleftrightarrow> is_permutation (length a) p \<and> sorted (map (\<lambda>i. a ! i) p)"

definition argsort_stable :: "int list \<Rightarrow> nat list" where
  "argsort_stable a = sort_key (\<lambda>i. a ! i) [0..<length a]"

text \<open>
  \<^verbatim>\<open>np.argpartition(a, kth)\<close> first makes an array of \<open>kth\<close> and casts it to the
  index type, a signed 64-bit integer. A Python integer below \<open>- 2 ^ 63\<close> or from
  \<open>2 ^ 64\<close> on gives an array of objects, which is refused with TypeError
  (\<^verbatim>\<open>Partition index must be integer\<close>); one from \<open>2 ^ 63\<close> to \<open>2 ^ 64 - 1\<close> gives an
  unsigned array, and the cast wraps it around to \<open>kth - 2 ^ 64\<close>. Then a negative
  \<open>kth\<close> counts from the end, and on an array that is not empty a \<open>kth\<close> outside
  \<open>0..<length a\<close> is refused with ValueError (\<^verbatim>\<open>kth(=..) out of bounds\<close>); an empty
  array is returned as it is. The result is a permutation of the indices with the element
  of rank \<open>kth\<close> at position \<open>kth\<close>, no larger element before it and no smaller one
  after it; the order inside the two parts is not fixed by numpy, so the result is again
  a parameter, constrained by \<open>is_argpartition\<close>.
\<close>

definition argpartition_kth :: "nat \<Rightarrow> int \<Rightarrow> error + nat" where
  "argpartition_kth n kth =
     (if kth < - (2 ^ 63) \<or> 2 ^ 64 \<le> kth then Inl TypeError
      else (let kth' = (if 2 ^ 63 \<le> kth then kth - 2 ^ 64 else kth);
                k = (if kth' < 0 then kth' + int n else kth')
            in if n \<noteq> 0 \<and> (k < 0 \<or> int n \<le> k) then Inl ValueError else Inr (nat k)))"

definition is_argpartition :: "int list \<Rightarrow> nat \<Rightarrow> nat list \<Rightarrow> bool" where
  "is_argpartition a k p \<longleftrightarrow>
     is_permutation (length a) p \<and>
     list_all (\<lambda>i. a ! i \<le> a ! (p ! k)) (take k p) \<and>
     list_all (\<lambda>i. a ! (p ! k) \<le> a ! i) (drop k p)"

text \<open>
  The slice \<^verbatim>\<open>xs[i:]\<close>: a negative \<open>i\<close> counts from the end, and the start is
  clipped to \<open>0..length xs\<close>. In particular \<^verbatim>\<open>xs[-0:]\<close> is \<^verbatim>\<open>xs[0:]\<close>, all of
  \<open>xs\<close>.
\<close>

definition slice_from :: "int \<Rightarrow> 'a list \<Rightarrow> 'a list" where
  "slice_from i xs =
     (let n = int (length xs);
          j = (if i < 0 then max (i + n) 0 else min i n)
      in drop (nat j) xs)"

text \<open>
  The array \<^verbatim>\<open>lengths\<close> has \<^verbatim>\<open>dtype=int\<close>, that is 64-bit signed elements; adding
  two such scalars wraps around.
\<close>

definition wrap_int64 :: "int \<Rightarrow> int" where
  "wrap_int64 x = (x + 2 ^ 63) mod 2 ^ 64 - 2 ^ 63"

subsection \<open>Python floats\<close>

text \<open>
  \<^verbatim>\<open>int(len(ids) * (args.longest / 100))\<close> is computed in IEEE 754 double precision.
  A finite double is \<open>Float m e\<close>, the number \<open>m * 2 ^ e\<close> with \<open>\<bar>m\<bar> \<le> 2 ^ 53\<close>;
  \<open>Inf\<close> is an infinity. Every operation returns the double nearest to the exact
  result, ties going to the even mantissa. The quotient of a non-zero integer by 100 and
  its product with a positive length are never small enough to be subnormal, so the
  exponent needs no lower bound here.
\<close>

datatype pyfloat = Float int int | Inf

text \<open>
  \<open>bit_length\<close> is the number of binary digits of a positive integer;
  \<open>round_half_even a b\<close> is the integer nearest to \<open>a / b\<close>, the even one of two
  nearest; \<open>round_ratio a b\<close>, for positive \<open>a\<close> and \<open>b\<close>, is the mantissa (of 53
  bits) and the exponent of the double nearest to \<open>a / b\<close>.
\<close>

function bit_length :: "int \<Rightarrow> nat" where
  "bit_length a = (if a \<le> 0 then 0 else Suc (bit_length (a div 2)))"
  by pat_completeness auto
termination
  by (relation "measure nat") auto

declare bit_length.simps [simp del]

definition round_half_even :: "int \<Rightarrow> int \<Rightarrow> int" where
  "round_half_even a b =
     (let q = a div b; r = a mod b
      in if 2 * r < b then q
         else if b < 2 * r then q + 1
         else if even q then q else q + 1)"

definition round_ratio :: "int \<Rightarrow> int \<Rightarrow> int \<times> int" where
  "round_ratio a b =
     (let e0 = int (bit_length a) - int (bit_length b) - 53;
          num = (if e0 < 0 then a * 2 ^ nat (- e0) else a);
          den = (if e0 < 0 then b else b * 2 ^ nat e0)
      in if 2 ^ 53 * den \<le> num then (round_half_even num (2 * den), e0 + 1)
         else (round_half_even num den, e0))"

text \<open>
  \<open>to_double a b\<close> is the double nearest to \<open>a / b\<close> for \<open>b > 0\<close>; a result of
  magnitude \<open>2 ^ 1024\<close> or more has overflowed.
\<close>

definition to_double :: "int \<Rightarrow> int \<Rightarrow> pyfloat" where
  "to_double a b =
     (if a = 0 then Float 0 0
      else (case round_ratio \<bar>a\<bar> b of
              (m, e) \<Rightarrow> if 0 \<le> e \<and> 2 ^ 1024 \<le> m * 2 ^ nat e then Inf
                        else Float (sgn a * m) e))"

text \<open>
  The three operations of the expression. The true division of two integers and the
  conversion of an integer to a float raise OverflowError when the result is too large
  for a double; the product of two floats overflows to an infinity, on which
  \<^verbatim>\<open>int\<close> raises OverflowError; \<^verbatim>\<open>int\<close> of a finite float truncates towards zero.
\<close>

definition int_true_div :: "int \<Rightarrow> int \<Rightarrow> error + pyfloat" where
  "int_true_div a b = (case to_double a b of Inf \<Rightarrow> Inl OverflowError | Float m e \<Rightarrow> Inr (Float m e))"

definition int_to_float :: "int \<Rightarrow> error + pyfloat" where
  "int_to_float a = (case to_double a 1 of Inf \<Rightarrow> Inl OverflowError | Float m e \<Rightarrow> Inr (Float m e))"

fun float_mul :: "pyfloat \<Rightarrow> pyfloat \<Rightarrow> pyfloat" where
  "float_mul (Float m1 e1) (Float m2 e2) =
     (if e1 + e2 < 0 then to_double (m1 * m2) (2 ^ nat (- (e1 + e2)))
      else to_double (m1 * m2 * 2 ^ nat (e1 + e2)) 1)"
| "float_mul _ _ = Inf"

fun float_to_int :: "pyfloat \<Rightarrow> error + int" where
  "float_to_int (Float m e) =
     Inr (if 0 \<le> e then m * 2 ^ nat e else sgn m * (\<bar>m\<bar> div 2 ^ nat (- e)))"
| "float_to_int Inf = Inl OverflowError"

text \<open>The real number a float denotes.\<close>

fun float_val :: "pyfloat \<Rightarrow> real" where
  "float_val (Float m e) = real_of_int m * 2 powr real_of_int e"
| "float_val Inf = 0"

subsection \<open>extract\_long\_reads: the percentage of longest reads\<close>

text \<open>
  \<^verbatim>\<open>
        max_reads = int(len(ids) * (args.longest / 100))
        longest = np.argpartition(lengths, -max_reads)[-max_reads:]
  \<close>
  \<open>argpartition\<close> is the array numpy returns for this call when it returns one.
\<close>

definition max_reads :: "nat \<Rightarrow> int \<Rightarrow> error + int" where
  "max_reads n longest =
     (case int_true_div longest 100 of
        Inl e \<Rightarrow> Inl e
      | Inr q \<Rightarrow>
          (case int_to_float (int n) of
             Inl e \<Rightarrow> Inl e
           | Inr nf \<Rightarrow> float_to_int (float_mul nf q)))"



definition percent_longest :: "int list \<Rightarrow> int \<Rightarrow> nat list \<Rightarrow> error + nat list" where
  "percent_longest lengths longest argpartition =
     (case max_reads (length lengths) longest of
        Inl e \<Rightarrow> Inl e
      | Inr m \<Rightarrow>
          (case argpartition_kth (length lengths) (- m) of
             Inl e \<Rightarrow> Inl e
           | Inr k \<Rightarrow> Inr (slice_from (- m) argpartition)))"

definition argpartition_result :: "int list \<Rightarrow> int \<Rightarrow> nat list \<Rightarrow> bool" where
  "argpartition_result lengths longest p \<longleftrightarrow>
     (case max_reads (length lengths) longest of
        Inl e \<Rightarrow> True
      | Inr m \<Rightarrow>
          (case argpartition_kth (length lengths) (- m) of
             Inl e \<Rightarrow> True
           | Inr k \<Rightarrow> is_argpartition lengths k p))"

subsection \<open>extract\_long\_reads: the budget of bases\<close>

text \<open>
  \<^verbatim>\<open>
        order = np.argsort(lengths)[::-1]
        cumsum = 0
        last = 1
        for i, j in enumerate(np.argsort(lengths), 1):
            cumsum += lengths[j]
            if cumsum > args.bases:
                break
            last = i
        longest = order[:last]
  \<close>
  The loop runs over the pairs \<open>(i, j)\<close> of \<^verbatim>\<open>enumerate(np.argsort(lengths), 1)\<close>,
  carrying \<open>cumsum\<close> and \<open>last\<close> (here \<open>last_i\<close>); \<^verbatim>\<open>break\<close> leaves the loop
  with the current \<open>last\<close>.
\<close>

fun budget_loop :: "int list \<Rightarrow> int \<Rightarrow> (nat \<times> nat) list \<Rightarrow> int \<Rightarrow> nat \<Rightarrow> nat" where
  "budget_loop lengths bases [] cumsum last_i = last_i"
| "budget_loop lengths bases ((i, j) # rest) cumsum last_i =
     (let cumsum' = wrap_int64 (cumsum + lengths ! j)
      in if cumsum' > bases then last_i
         else budget_loop lengths bases rest cumsum' i)"

definition budget_longest :: "int list \<Rightarrow> int \<Rightarrow> nat list \<Rightarrow> nat list" where
  "budget_longest lengths bases argsort =
     (let order = rev argsort;
          last_i = budget_loop lengths bases (enumerate 1 argsort) 0 1
      in take last_i order)"

subsection \<open>extract\_long\_reads: what is written\<close>

text \<open>
  \<^verbatim>\<open>record_dict\<close> is modelled by the list of its items \<open>(id, len(record))\<close> in key
  order, the keys being distinct; \<^verbatim>\<open>ids\<close> and \<^verbatim>\<open>lengths\<close> are its two projections.
  The ids written to \<^verbatim>\<open>args.output\<close> are \<^verbatim>\<open>ids[i] for i in longest\<close>; those written
  to \<^verbatim>\<open>args.others\<close> are \<^verbatim>\<open>ids[i] for i in range(len(ids)) if i not in longest\<close>.

  The argument parser accepts exactly one of \<^verbatim>\<open>--longest\<close> and \<^verbatim>\<open>--bases\<close>; the
  function branches on \<^verbatim>\<open>args.bases is None\<close> (\<open>select_longest\<close> is the array
  \<^verbatim>\<open>longest\<close> of indices that the branch leaves). \<open>others\<close> says whether
  \<^verbatim>\<open>--others\<close> was given, and \<open>np_result\<close> is the array that the numpy call of the
  branch taken returns. The result is the list of ids written to the output and, when
  requested, the list written to the others.
\<close>

type_synonym record_dict = "(string \<times> nat) list"

definition ids_of :: "record_dict \<Rightarrow> string list" where
  "ids_of record_dict = map fst record_dict"

definition lengths_of :: "record_dict \<Rightarrow> int list" where
  "lengths_of record_dict = map (\<lambda>r. int (snd r)) record_dict"

definition written_output :: "string list \<Rightarrow> nat list \<Rightarrow> string list" where
  "written_output ids longest = map (\<lambda>i. ids ! i) longest"

definition written_others :: "string list \<Rightarrow> nat list \<Rightarrow> string list" where
  "written_others ids longest =
     map (\<lambda>i. ids ! i) (filter (\<lambda>i. i \<notin> set longest) [0..<length ids])"

definition select_longest ::
  "int list \<Rightarrow> int option \<Rightarrow> int option \<Rightarrow> nat list \<Rightarrow> error + nat list" where
  "select_longest lengths longest bases np_result =
     (case bases of
        None \<Rightarrow>
          (case longest of
             None \<Rightarrow> Inl TypeError
           | Some pct \<Rightarrow> percent_longest lengths pct np_result)
      | Some b \<Rightarrow> Inr (budget_longest lengths b np_result))"

definition extract_long_reads ::
  "record_dict \<Rightarrow> int option \<Rightarrow> int option \<Rightarrow> bool \<Rightarrow> nat list
     \<Rightarrow> error + string list \<times> string list option" where
  "extract_long_reads record_dict longest bases others np_result =
     (case select_longest (lengths_of record_dict) longest bases np_result of
        Inl e \<Rightarrow> Inl e
      | Inr sel \<Rightarrow>
          Inr (written_output (ids_of record_dict) sel,
               if others then Some (written_others (ids_of record_dict) sel) else None))"

subsection \<open>parse\_regions: the regular expression\<close>

text \<open>
  Strings are lists of code points below 256. The classes of the regular expression are
  those of Python's \<^verbatim>\<open>re\<close> on \<^verbatim>\<open>str\<close> patterns: a digit is one of \<open>0\<close> to
  \<open>9\<close>, a word character is an alphanumeric code point or the underscore (the
  letters and digits of ASCII and the alphanumeric code points of Latin-1).
\<close>

definition is_digit :: "char \<Rightarrow> bool" where
  "is_digit c \<longleftrightarrow> (let n = (of_char c :: nat) in 48 \<le> n \<and> n \<le> 57)"

definition is_word :: "char \<Rightarrow> bool" where
  "is_word c \<longleftrightarrow>
     (let n = (of_char c :: nat)
      in (48 \<le> n \<and> n \<le> 57) \<or> (65 \<le> n \<and> n \<le> 90) \<or> n = 95 \<or> (97 \<le> n \<and> n \<le> 122) \<or>
         n = 170 \<or> (178 \<le> n \<and> n \<le> 179) \<or> n = 181 \<or> (185 \<le> n \<and> n \<le> 186) \<or>
         (188 \<le> n \<and> n \<le> 190) \<or> (192 \<le> n \<and> n \<le> 214) \<or> (216 \<le> n \<and> n \<le> 246) \<or>
         248 \<le> n)"

text \<open>
  The pattern is \<^verbatim>\<open>(?P<ref_name>WORD+):*(?P<start>(DIGIT+-)*)(?P<end>DIGIT*)\<close>, where
  \<^verbatim>\<open>WORD\<close> and \<^verbatim>\<open>DIGIT\<close> stand for the word and the digit class, and it is applied
  with \<^verbatim>\<open>match\<close>: anchored at the start of the string, not at its end. Every part
  after the name may match the empty string, so the first, greedy, choice of each part
  always leads to a match and nothing is ever given back: the name is the longest run
  of word characters, then come all colons, then the longest sequence of groups of digits
  closed by a dash, then the longest run of digits. What follows is not looked at.

  \<open>start_group\<close> matches \<^verbatim>\<open>(DIGIT+-)*\<close>: it returns the matched text and the rest.
\<close>

function start_group :: "string \<Rightarrow> string \<times> string" where
  "start_group s =
     (case dropWhile is_digit s of
        [] \<Rightarrow> ([], s)
      | c # r \<Rightarrow>
          if c = CHR ''-'' \<and> takeWhile is_digit s \<noteq> []
          then (case start_group r of (g, rest) \<Rightarrow> (takeWhile is_digit s @ [c] @ g, rest))
          else ([], s))"
  by pat_completeness auto
termination
proof (relation "measure length")
  show "wf (measure length)" by simp
next
  fix s :: string and c r
  assume "dropWhile is_digit s = c # r"
  then have "length r < length (dropWhile is_digit s)" by simp
  also have "\<dots> \<le> length s" by (rule length_dropWhile_le)
  finally show "(r, s) \<in> measure length" by simp
qed

declare start_group.simps [simp del]

text \<open>
  \<^verbatim>\<open>_region_decoder_.match(region)\<close> is \<open>None\<close> when the string does not begin
  with a word character; otherwise the three named groups are returned.
\<close>

definition region_decoder_match :: "string \<Rightarrow> (string \<times> string \<times> string) option" where
  "region_decoder_match region =
     (let ref_name = takeWhile is_word region
      in if ref_name = [] then None
         else (let after_name = dropWhile is_word region;
                   after_colons = dropWhile (\<lambda>c. c = CHR '':'') after_name;
                   (start, after_start) = start_group after_colons
               in Some (ref_name, start, takeWhile is_digit after_start)))"

subsection \<open>parse\_regions\<close>

text \<open>
  \<^verbatim>\<open>int(d[key])\<close> is only applied to a non-empty string of digits \<open>0\<close> to \<open>9\<close>.
  \<open>digits_value\<close> is its decimal value. The interpreter (CPython from 3.11 on, with its
  default setting) refuses to convert a string of more than 4300 digits, leading zeros
  counted, and raises ValueError.
\<close>

definition digits_value :: "string \<Rightarrow> nat" where
  "digits_value s = foldl (\<lambda>acc c. 10 * acc + (of_char c - 48)) 0 s"

definition py_int :: "string \<Rightarrow> error + int" where
  "py_int s = (if 4300 < length s then Inl ValueError else Inr (int (digits_value s)))"

text \<open>
  \<^verbatim>\<open>Region = namedtuple('Region', 'ref_name start end')\<close>; the field \<^verbatim>\<open>end\<close> is
  \<open>end_pos\<close> here, \<open>None\<close> when absent.
\<close>

datatype Region = Region (ref_name: string) (start: int) (end_pos: "int option")

text \<open>
  \<^verbatim>\<open>
        d =  _region_decoder_.match(region).groupdict()
        d['start'] = d['start'].replace('-', '')
        for key in ['start', 'end']:
            d[key] = None if d[key] == '' else int(d[key])
        d['start'] = 0 if d['start'] is None else d['start']
        if d['end'] is None and ref_lengths is not None:
            d['end'] = ref_lengths[d['ref_name']]
        decoded.append(Region(**d))
  \<close>
  \<open>decode_start\<close> and \<open>decode_end\<close> are what these lines do to the two groups, the
  start being converted first; \<open>decode_region\<close> is the body of the loop for one string.
  A failed match is \<open>None\<close>, on which \<^verbatim>\<open>.groupdict()\<close> raises AttributeError; a
  conversion of too many digits raises ValueError; a name missing from
  \<^verbatim>\<open>ref_lengths\<close> raises KeyError.
\<close>

definition decode_start :: "string \<Rightarrow> error + int" where
  "decode_start start_s =
     (let s = filter (\<lambda>c. c \<noteq> CHR ''-'') start_s
      in if s = [] then Inr 0 else py_int s)"

definition decode_end :: "string \<Rightarrow> error + int option" where
  "decode_end end_s =
     (if end_s = [] then Inr None
      else (case py_int end_s of Inl e \<Rightarrow> Inl e | Inr v \<Rightarrow> Inr (Some v)))"

definition decode_region :: "string \<Rightarrow> (string \<rightharpoonup> int) option \<Rightarrow> error + Region" where
  "decode_region region ref_lengths =
     (case region_decoder_match region of
        None \<Rightarrow> Inl AttributeError
      | Some (name, start_s, end_s) \<Rightarrow>
          (case decode_start start_s of
             Inl e \<Rightarrow> Inl e
           | Inr start_v \<Rightarrow>
               (case decode_end end_s of
                  Inl e \<Rightarrow> Inl e
                | Inr end_v \<Rightarrow>
                    (case (end_v, ref_lengths) of
                       (None, Some lens) \<Rightarrow>
                         (case lens name of
                            None \<Rightarrow> Inl KeyError
                          | Some v \<Rightarrow> Inr (Region name start_v (Some v)))
                     | (e, _) \<Rightarrow> Inr (Region name start_v e)))))"

fun parse_regions_loop ::
  "string list \<Rightarrow> (string \<rightharpoonup> int) option \<Rightarrow> Region list \<Rightarrow> error + Region list" where
  "parse_regions_loop [] ref_lengths decoded = Inr decoded"
| "parse_regions_loop (region # rest) ref_lengths decoded =
     (case decode_region region ref_lengths of
        Inl e \<Rightarrow> Inl e
      | Inr r \<Rightarrow> parse_regions_loop rest ref_lengths (decoded @ [r]))"

definition parse_regions :: "string list \<Rightarrow> (string \<rightharpoonup> int) option \<Rightarrow> error + Region list" where
  "parse_regions regions ref_lengths = parse_regions_loop regions ref_lengths []"

subsection \<open>Region strings as the specification words them\<close>

text \<open>
  The repository has no function that prints a Region. The two below follow the
  specification's round-trip property ("re-serializing the parsed Region using the
  grammar \<open>ref[:start-end]\<close>, omitting parts per the absence rules"):
  \<open>serialize_region\<close> writes the name, the start and the end when there is one;
  \<open>serialize_region_short\<close> writes the shortest form of the grammar that denotes the
  Region (no position for a whole reference, a single number for a start of 0).
  \<open>py_str\<close> is Python's \<^verbatim>\<open>str\<close> of an integer (of at most 4300 digits, as the
  integers of a decoded Region are).
\<close>

fun dec_str :: "nat \<Rightarrow> string" where
  "dec_str n =
     (if n < 10 then [''0123456789'' ! n]
      else dec_str (n div 10) @ [''0123456789'' ! (n mod 10)])"

declare dec_str.simps [simp del]

definition py_str :: "int \<Rightarrow> string" where
  "py_str i = (if i < 0 then CHR ''-'' # dec_str (nat (- i)) else dec_str (nat i))"

definition serialize_region_short :: "Region \<Rightarrow> string" where
  "serialize_region_short r =
     (case end_pos r of
        None \<Rightarrow> if start r = 0 then ref_name r else ref_name r @ '':'' @ py_str (start r) @ ''-''
      | Some e \<Rightarrow>
          if start r = 0 then ref_name r @ '':'' @ py_str e
          else ref_name r @ '':'' @ py_str (start r) @ ''-'' @ py_str e)"

definition serialize_region :: "Region \<Rightarrow> string" where
  "serialize_region r =
     ref_name r @ '':'' @ py_str (start r) @ ''-'' @
       (case end_pos r of None \<Rightarrow> [] | Some e \<Rightarrow> py_str e)"

text \<open>
  The grammar of the specification, \<^verbatim>\<open><ref_name>[:<start>][-<end>]\<close>: a name of one or
  more word characters, and after an optional colon a position, which is absent, or
  \<open>N\<close>, or \<open>N-\<close>, or \<open>N-M\<close>.
\<close>

definition spec_position :: "string \<Rightarrow> bool" where
  "spec_position t \<longleftrightarrow>
     t = [] \<or>
     (let n = takeWhile is_digit t; r = dropWhile is_digit t
      in n \<noteq> [] \<and> (r = [] \<or> (hd r = CHR ''-'' \<and> list_all is_digit (tl r))))"

definition spec_region_grammar :: "string \<Rightarrow> bool" where
  "spec_region_grammar s \<longleftrightarrow>
     (let name = takeWhile is_word s; r = dropWhile is_word s
      in name \<noteq> [] \<and> (r = [] \<or> (hd r = CHR '':'' \<and> spec_position (tl r))))"

section \<open>Properties\<close>

subsection \<open>Rounding to a double\<close>

lemma bit_length_pos: "0 < a \<Longrightarrow> 0 < bit_length a"
  by (subst bit_length.simps) simp

lemma bit_length_bounds:
  "0 < a \<Longrightarrow> 2 ^ (bit_length a - 1) \<le> a \<and> a < 2 ^ bit_length a"
proof (induction a rule: bit_length.induct)
  case (1 a)
  show ?case
  proof (cases "a = 1")
    case True
    have "bit_length 1 = 1"
      by (simp add: bit_length.simps)
    with True show ?thesis by simp
  next
    case False
    with "1.prems" have h: "0 < a div 2" by simp
    let ?l = "bit_length (a div 2)"
    from "1.IH" "1.prems" h have ih: "2 ^ (?l - 1) \<le> a div 2" "a div 2 < 2 ^ ?l"
      by simp_all
    have l: "0 < ?l" using h by (rule bit_length_pos)
    have s: "bit_length a = Suc ?l"
      using "1.prems" by (subst bit_length.simps) simp
    have "(2::int) ^ ?l = 2 * 2 ^ (?l - 1)"
      using l by (cases ?l) simp_all
    with ih(1) have lo: "2 ^ ?l \<le> a" by linarith
    from ih(2) have "a < 2 * 2 ^ ?l" by linarith
    with lo show ?thesis by (simp add: s)
  qed
qed

lemma bit_length_real:
  assumes "0 < a"
  shows "2 powr real (bit_length a) \<le> 2 * real_of_int a"
    and "real_of_int a < 2 powr real (bit_length a)"
proof -
  from bit_length_bounds [OF assms]
  have b: "2 ^ (bit_length a - 1) \<le> a" "a < 2 ^ bit_length a" by simp_all
  have "(2::int) ^ bit_length a = 2 * 2 ^ (bit_length a - 1)"
    using bit_length_pos [OF assms] by (cases "bit_length a") simp_all
  with b(1) have "(2::int) ^ bit_length a \<le> 2 * a" by linarith
  then have "real_of_int (2 ^ bit_length a) \<le> real_of_int (2 * a)"
    by (simp only: of_int_le_iff)
  then show "2 powr real (bit_length a) \<le> 2 * real_of_int a"
    by (simp add: powr_realpow)
  have "real_of_int a < real_of_int (2 ^ bit_length a)"
    using b(2) by (simp only: of_int_less_iff)
  then show "real_of_int a < 2 powr real (bit_length a)"
    by (simp add: powr_realpow)
qed

lemma round_half_even_near:
  assumes "0 < b"
  shows "\<bar>real_of_int (round_half_even a b) - real_of_int a / real_of_int b\<bar> \<le> 1 / 2"
proof -
  define q r where "q = a div b" and "r = a mod b"
  define f where "f = real_of_int r / real_of_int b"
  have r: "0 \<le> r" "r < b" using assms by (simp_all add: r_def)
  have "a = b * q + r"
    by (simp add: q_def r_def)
  then have "real_of_int a = real_of_int b * real_of_int q + real_of_int r"
    by (metis of_int_add of_int_mult)
  then have d: "real_of_int a / real_of_int b = real_of_int q + f"
    using assms by (simp add: f_def field_simps)
  have rb: "real_of_int r = f * real_of_int b"
    using assms by (simp add: f_def)
  have def: "round_half_even a b =
    (if 2 * r < b then q else if b < 2 * r then q + 1 else if even q then q else q + 1)"
    by (simp add: round_half_even_def Let_def q_def r_def)
  have bpos: "0 < real_of_int b" using assms by simp
  consider "2 * r < b" | "b < 2 * r" | "2 * r = b" by linarith
  then show ?thesis
  proof cases
    case 1
    then have "2 * real_of_int r < real_of_int b"
      by (metis of_int_less_iff of_int_mult of_int_numeral)
    then have "2 * f * real_of_int b < 1 * real_of_int b"
      using rb by simp
    then have "2 * f < 1"
      using bpos by (simp only: mult_less_cancel_right_pos)
    moreover have "0 \<le> f"
      using r(1) bpos by (simp add: f_def)
    moreover have "round_half_even a b = q"
      using 1 by (simp add: def)
    ultimately show ?thesis
      unfolding d by simp
  next
    case 2
    then have "real_of_int b < 2 * real_of_int r"
      by (metis of_int_less_iff of_int_mult of_int_numeral)
    then have "1 * real_of_int b < 2 * f * real_of_int b"
      using rb by simp
    then have "1 < 2 * f"
      using bpos by (simp only: mult_less_cancel_right_pos)
    moreover have "f < 1"
      using r(2) bpos by (simp add: f_def)
    moreover have "round_half_even a b = q + 1"
      using 2 by (simp add: def)
    ultimately show ?thesis
      unfolding d by simp
  next
    case 3
    then have "2 * real_of_int r = real_of_int b"
      by (metis of_int_eq_iff of_int_mult of_int_numeral)
    then have "2 * f * real_of_int b = 1 * real_of_int b"
      using rb by simp
    then have "2 * f = 1"
      using bpos by simp
    moreover have "round_half_even a b = q \<or> round_half_even a b = q + 1"
      using 3 by (simp add: def)
    ultimately show ?thesis
      unfolding d by auto
  qed
qed


lemma pow2_nat: "0 \<le> k \<Longrightarrow> real_of_int (2 ^ nat k) = 2 powr real_of_int k"
proof -
  assume "0 \<le> k"
  then have "2 powr real_of_int k = 2 powr real (nat k)" by simp
  also have "\<dots> = 2 ^ nat k" by (simp add: powr_realpow)
  finally show ?thesis by simp
qed

lemma scaled_ratio:
  assumes "0 < b"
  shows "real_of_int (if e0 < 0 then a * 2 ^ nat (- e0) else a)
       / real_of_int (if e0 < 0 then b else b * 2 ^ nat e0)
     = real_of_int a / real_of_int b * 2 powr (- real_of_int e0)"
proof (cases "e0 < 0")
  case True
  then have "real_of_int (2 ^ nat (- e0)) = 2 powr (- real_of_int e0)"
    using pow2_nat [of "- e0"] by simp
  with True show ?thesis by simp
next
  case False
  then have "real_of_int (2 ^ nat e0) = 2 powr real_of_int e0"
    using pow2_nat [of e0] by simp
  with False show ?thesis by (simp add: powr_minus divide_inverse)
qed

lemma round_ratio_props:
  assumes "0 < a" "0 < b" "round_ratio a b = (m, e)"
  shows "\<bar>real_of_int m - real_of_int a / real_of_int b * 2 powr (- real_of_int e)\<bar> \<le> 1 / 2"
    and "2 ^ 52 \<le> real_of_int a / real_of_int b * 2 powr (- real_of_int e)"
proof -
  define la lb where "la = bit_length a" and "lb = bit_length b"
  define e0 where "e0 = int la - int lb - 53"
  define num where "num = (if e0 < 0 then a * 2 ^ nat (- e0) else a)"
  define den where "den = (if e0 < 0 then b else b * 2 ^ nat e0)"
  define x where "x = real_of_int a / real_of_int b"
  define s0 where "s0 = x * 2 powr (- real_of_int e0)"
  have den_pos: "0 < den"
    using assms(2) by (simp add: den_def)
  have rden: "0 < real_of_int den"
    using den_pos by simp
  have s0: "real_of_int num / real_of_int den = s0"
    unfolding num_def den_def s0_def x_def by (rule scaled_ratio [OF assms(2)])
  have rr: "round_ratio a b =
    (if 2 ^ 53 * den \<le> num then (round_half_even num (2 * den), e0 + 1)
     else (round_half_even num den, e0))"
    by (simp add: round_ratio_def Let_def num_def den_def e0_def la_def lb_def)
  have lower0: "2 ^ 52 \<le> s0"
  proof -
    have pa: "2 powr real la \<le> 2 * real_of_int a"
      unfolding la_def by (rule bit_length_real(1) [OF assms(1)])
    have pb: "real_of_int b < 2 powr real lb"
      unfolding lb_def by (rule bit_length_real(2) [OF assms(2)])
    have "- real_of_int e0 = 53 + real lb - real la"
      by (simp add: e0_def)
    then have "2 powr (- real_of_int e0) = 2 powr 53 * 2 powr real lb / 2 powr real la"
      by (simp only: powr_add powr_diff)
    then have pe: "2 powr (- real_of_int e0) = 2 ^ 53 * 2 powr real lb / 2 powr real la"
      by simp
    have A: "1 / 2 \<le> real_of_int a / 2 powr real la"
      using pa by (simp add: field_simps)
    have B: "1 \<le> 2 powr real lb / real_of_int b"
      using pb assms(2) by (simp add: field_simps)
    have "1 / 2 * 1 \<le> (real_of_int a / 2 powr real la) * (2 powr real lb / real_of_int b)"
      using assms(1) by (intro mult_mono A B) simp_all
    moreover have "s0 = 2 ^ 53 * ((real_of_int a / 2 powr real la) * (2 powr real lb / real_of_int b))"
      unfolding s0_def x_def pe by (simp add: mult_ac)
    ultimately show ?thesis by simp
  qed
  show "\<bar>real_of_int m - real_of_int a / real_of_int b * 2 powr (- real_of_int e)\<bar> \<le> 1 / 2"
    and "2 ^ 52 \<le> real_of_int a / real_of_int b * 2 powr (- real_of_int e)"
  proof -
    have "\<bar>real_of_int m - x * 2 powr (- real_of_int e)\<bar> \<le> 1 / 2 \<and>
      2 ^ 52 \<le> x * 2 powr (- real_of_int e)"
    proof (cases "2 ^ 53 * den \<le> num")
      case True
      with rr assms(3) have m: "m = round_half_even num (2 * den)" and e: "e = e0 + 1"
        by simp_all
      have "- real_of_int e = - real_of_int e0 - 1"
        by (simp add: e)
      then have "2 powr (- real_of_int e) = 2 powr (- real_of_int e0) / 2 powr 1"
        by (simp only: powr_diff)
      then have se: "x * 2 powr (- real_of_int e) = s0 / 2"
        by (simp add: s0_def)
      have half: "real_of_int num / real_of_int (2 * den) = s0 / 2"
        using s0 by simp
      from True have "real_of_int (2 ^ 53 * den) \<le> real_of_int num"
        by (simp only: of_int_le_iff)
      then have "2 ^ 53 * real_of_int den \<le> real_of_int num"
        by simp
      then have "2 ^ 53 \<le> real_of_int num / real_of_int den"
        using rden by (simp add: pos_le_divide_eq)
      then have lo: "2 ^ 52 \<le> s0 / 2"
        unfolding s0 by simp
      have "0 < 2 * den" using den_pos by simp
      from round_half_even_near [OF this, of num]
      have "\<bar>real_of_int m - s0 / 2\<bar> \<le> 1 / 2"
        unfolding m half .
      with lo show ?thesis
        unfolding se by simp
    next
      case False
      with rr assms(3) have m: "m = round_half_even num den" and e: "e = e0"
        by simp_all
      from round_half_even_near [OF den_pos, of num]
      have "\<bar>real_of_int m - s0\<bar> \<le> 1 / 2"
        unfolding m s0 .
      with lower0 show ?thesis
        unfolding e s0_def [symmetric] by simp
    qed
    then show "\<bar>real_of_int m - real_of_int a / real_of_int b * 2 powr (- real_of_int e)\<bar> \<le> 1 / 2"
      and "2 ^ 52 \<le> real_of_int a / real_of_int b * 2 powr (- real_of_int e)"
      unfolding x_def by simp_all
  qed
qed


lemma round_ratio_error:
  assumes "0 < a" "0 < b" "round_ratio a b = (m, e)"
  shows "\<bar>real_of_int m * 2 powr real_of_int e - real_of_int a / real_of_int b\<bar>
    \<le> real_of_int a / real_of_int b / 2 ^ 53"
proof -
  define x where "x = real_of_int a / real_of_int b"
  define p where "p = 2 powr real_of_int e"
  define s where "s = x * 2 powr (- real_of_int e)"
  have p: "0 < p" by (simp add: p_def)
  have x: "x = s * p"
    by (simp add: s_def p_def powr_minus)
  from round_ratio_props [OF assms]
  have near: "\<bar>real_of_int m - s\<bar> \<le> 1 / 2" and lo: "2 ^ 52 \<le> s"
    by (simp_all add: s_def x_def)
  have "real_of_int m * p - x = (real_of_int m - s) * p"
    by (simp add: x algebra_simps)
  then have "\<bar>real_of_int m * p - x\<bar> = \<bar>real_of_int m - s\<bar> * p"
    using p by (simp add: abs_mult)
  also have "\<dots> \<le> 1 / 2 * p"
    using near p by (intro mult_right_mono) simp_all
  also have "\<dots> \<le> x / 2 ^ 53"
  proof -
    have "2 ^ 52 * p \<le> s * p"
      using lo p by (intro mult_right_mono) simp_all
    then show ?thesis by (simp add: x)
  qed
  finally show ?thesis
    by (simp add: x_def p_def)
qed

lemma to_double_error:
  assumes "0 < b" "to_double a b = Float m e"
  shows "\<bar>float_val (Float m e) - real_of_int a / real_of_int b\<bar>
    \<le> \<bar>real_of_int a / real_of_int b\<bar> / 2 ^ 53"
proof (cases "a = 0")
  case True
  with assms(2) show ?thesis by (simp add: to_double_def)
next
  case False
  obtain m' e' where rr: "round_ratio \<bar>a\<bar> b = (m', e')"
    by (cases "round_ratio \<bar>a\<bar> b")
  with assms(2) False have m: "m = sgn a * m'" and e: "e = e'"
    by (simp_all add: to_double_def split: if_splits)
  have "0 < \<bar>a\<bar>" using False by simp
  from round_ratio_error [OF this assms(1) rr]
  have b: "\<bar>real_of_int m' * 2 powr real_of_int e' - real_of_int \<bar>a\<bar> / real_of_int b\<bar>
    \<le> real_of_int \<bar>a\<bar> / real_of_int b / 2 ^ 53" .
  have a: "real_of_int a = real_of_int (sgn a) * real_of_int \<bar>a\<bar>"
    by (metis of_int_mult sgn_mult_abs)
  have sg: "\<bar>real_of_int (sgn a)\<bar> = 1"
    using False by (simp add: sgn_if)
  have "real_of_int m * 2 powr real_of_int e - real_of_int a / real_of_int b
    = real_of_int (sgn a) * (real_of_int m' * 2 powr real_of_int e' - real_of_int \<bar>a\<bar> / real_of_int b)"
    by (subst a) (simp add: m e algebra_simps)
  then have "\<bar>real_of_int m * 2 powr real_of_int e - real_of_int a / real_of_int b\<bar>
    = \<bar>real_of_int m' * 2 powr real_of_int e' - real_of_int \<bar>a\<bar> / real_of_int b\<bar>"
    by (simp only: abs_mult sg mult_1)
  moreover have "\<bar>real_of_int a / real_of_int b\<bar> = real_of_int \<bar>a\<bar> / real_of_int b"
    using assms(1) by simp
  ultimately show ?thesis
    using b assms(1) by simp
qed

lemma to_double_finite:
  assumes "0 < b" "\<bar>real_of_int a / real_of_int b\<bar> < 2 ^ 1023"
  shows "\<exists>m e. to_double a b = Float m e"
proof (cases "a = 0")
  case True
  then show ?thesis by (simp add: to_double_def)
next
  case False
  obtain m' e' where rr: "round_ratio \<bar>a\<bar> b = (m', e')"
    by (cases "round_ratio \<bar>a\<bar> b")
  define x where "x = real_of_int \<bar>a\<bar> / real_of_int b"
  have xb: "x < 2 ^ 1023" "0 \<le> x"
    using assms by (simp_all add: x_def)
  have "0 < \<bar>a\<bar>" using False by simp
  from round_ratio_error [OF this assms(1) rr]
  have "real_of_int m' * 2 powr real_of_int e' \<le> x + x / 2 ^ 53"
    unfolding x_def by linarith
  also have "\<dots> \<le> x + x"
    using xb(2) by (simp add: field_simps)
  also have "\<dots> < 2 ^ 1024"
    using xb(1) by simp
  finally have v: "real_of_int m' * 2 powr real_of_int e' < 2 ^ 1024" .
  have "\<not> (0 \<le> e' \<and> 2 ^ 1024 \<le> m' * 2 ^ nat e')"
  proof
    assume h: "0 \<le> e' \<and> 2 ^ 1024 \<le> m' * 2 ^ nat e'"
    then have "real_of_int (2 ^ 1024) \<le> real_of_int (m' * 2 ^ nat e')"
      by (simp only: of_int_le_iff)
    then have "2 ^ 1024 \<le> real_of_int m' * 2 powr real_of_int e'"
      using h pow2_nat [of e'] by simp
    with v show False by simp
  qed
  then show ?thesis
    using False rr by (simp add: to_double_def)
qed

lemma float_mul_ratio:
  "\<exists>A B. 0 < B \<and> float_mul (Float m1 e1) (Float m2 e2) = to_double A B \<and>
     real_of_int A / real_of_int B = float_val (Float m1 e1) * float_val (Float m2 e2)"
proof -
  define s where "s = real_of_int (e1 + e2)"
  have v: "float_val (Float m1 e1) * float_val (Float m2 e2)
    = real_of_int m1 * real_of_int m2 * 2 powr s"
    by (simp add: s_def powr_add)
  show ?thesis
  proof (cases "e1 + e2 < 0")
    case True
    let ?A = "m1 * m2" and ?B = "(2::int) ^ nat (- (e1 + e2))"
    have "real_of_int ?B = 2 powr real_of_int (- (e1 + e2))"
      using True by (intro pow2_nat) simp
    then have "real_of_int ?B = 2 powr (- s)"
      by (simp only: s_def of_int_minus)
    then have "real_of_int ?A / real_of_int ?B = real_of_int m1 * real_of_int m2 * 2 powr s"
      by (simp only: powr_minus divide_inverse inverse_inverse_eq of_int_mult)
    then have "real_of_int ?A / real_of_int ?B = float_val (Float m1 e1) * float_val (Float m2 e2)"
      by (simp only: v)
    moreover have "float_mul (Float m1 e1) (Float m2 e2) = to_double ?A ?B"
      using True by simp
    moreover have "0 < ?B" by simp
    ultimately show ?thesis by blast
  next
    case False
    let ?A = "m1 * m2 * 2 ^ nat (e1 + e2)"
    have "real_of_int ((2::int) ^ nat (e1 + e2)) = 2 powr s"
      unfolding s_def using False by (intro pow2_nat) simp
    then have "real_of_int ?A / real_of_int 1 = real_of_int m1 * real_of_int m2 * 2 powr s"
      by (simp only: of_int_mult of_int_1 div_by_1)
    then have "real_of_int ?A / real_of_int 1 = float_val (Float m1 e1) * float_val (Float m2 e2)"
      by (simp only: v)
    moreover have "float_mul (Float m1 e1) (Float m2 e2) = to_double ?A 1"
      using False by simp
    ultimately show ?thesis by (metis zero_less_one)
  qed
qed


lemma float_to_int_floor:
  assumes "0 \<le> float_val (Float m e)"
  shows "float_to_int (Float m e) = Inr \<lfloor>float_val (Float m e)\<rfloor>"
proof -
  have m: "0 \<le> m"
  proof (rule ccontr)
    assume "\<not> 0 \<le> m"
    then have "real_of_int m * 2 powr real_of_int e < 0"
      by (simp add: mult_less_0_iff)
    with assms show False by simp
  qed
  show ?thesis
  proof (cases "0 \<le> e")
    case True
    then have "float_val (Float m e) = real_of_int (m * 2 ^ nat e)"
      using pow2_nat [of e] by simp
    then have "\<lfloor>float_val (Float m e)\<rfloor> = m * 2 ^ nat e"
      by (simp only: floor_of_int)
    with True show ?thesis by simp
  next
    case False
    define D where "D = (2::int) ^ nat (- e)"
    have "real_of_int D = 2 powr real_of_int (- e)"
      unfolding D_def using False by (intro pow2_nat) simp
    then have "real_of_int D = inverse (2 powr real_of_int e)"
      by (simp add: powr_minus)
    then have "float_val (Float m e) = real_of_int m / real_of_int D"
      by (simp add: divide_inverse)
    then have "\<lfloor>float_val (Float m e)\<rfloor> = m div D"
      by (simp only: floor_divide_of_int_eq)
    moreover have "sgn m * (\<bar>m\<bar> div D) = m div D"
      using m by (cases "m = 0") (simp_all add: sgn_if)
    ultimately show ?thesis
      using False by (simp add: D_def)
  qed
qed

lemma three_roundings:
  fixes a b va vb v :: real
  assumes "0 \<le> a" "0 \<le> b"
    and "\<bar>va - a\<bar> \<le> a / 2 ^ 53" "\<bar>vb - b\<bar> \<le> b / 2 ^ 53"
    and "\<bar>v - va * vb\<bar> \<le> \<bar>va * vb\<bar> / 2 ^ 53"
  shows "\<bar>v - a * b\<bar> \<le> a * b * (4 / 2 ^ 53)" and "0 \<le> v" and "0 \<le> va * vb"
    and "va * vb \<le> a * b * 2"
proof -
  define u :: real where "u = 1 / 2 ^ 53"
  have u: "0 \<le> u" "u \<le> 1" by (simp_all add: u_def)
  have "\<bar>va - a\<bar> \<le> a * u"
    using assms(3) by (simp add: u_def)
  then have "a - a * u \<le> va" "va \<le> a + a * u"
    by linarith+
  then have va: "a * (1 - u) \<le> va" "va \<le> a * (1 + u)"
    by (simp_all add: algebra_simps)
  have "\<bar>vb - b\<bar> \<le> b * u"
    using assms(4) by (simp add: u_def)
  then have "b - b * u \<le> vb" "vb \<le> b + b * u"
    by linarith+
  then have vb: "b * (1 - u) \<le> vb" "vb \<le> b * (1 + u)"
    by (simp_all add: algebra_simps)
  have va0: "0 \<le> va"
    using va(1) assms(1) u by (meson diff_ge_0_iff_ge mult_nonneg_nonneg order_trans)
  have vb0: "0 \<le> vb"
    using vb(1) assms(2) u by (meson diff_ge_0_iff_ge mult_nonneg_nonneg order_trans)
  show p0: "0 \<le> va * vb"
    using va0 vb0 by simp
  have up: "va * vb \<le> (a * (1 + u)) * (b * (1 + u))"
    using va(2) vb(2) va0 vb0 assms(1,2) u by (intro mult_mono) simp_all
  have lo: "(a * (1 - u)) * (b * (1 - u)) \<le> va * vb"
    using va(1) vb(1) va0 vb0 assms(1,2) u by (intro mult_mono) simp_all
  have "\<bar>v - va * vb\<bar> \<le> va * vb * u"
    using assms(5) p0 by (simp add: u_def)
  then have "va * vb - va * vb * u \<le> v" "v \<le> va * vb + va * vb * u"
    by linarith+
  then have v: "va * vb * (1 - u) \<le> v" "v \<le> va * vb * (1 + u)"
    by (simp_all add: algebra_simps)
  have "0 \<le> va * vb * (1 - u)"
    using p0 u by simp
  with v(1) show "0 \<le> v" by simp
  have ab: "0 \<le> a * b" using assms(1,2) by simp
  have c1: "(1 + u) * (1 + u) * (1 + u) \<le> 1 + 4 * u"
    by (simp add: u_def)
  have c2: "1 - 4 * u \<le> (1 - u) * (1 - u) * (1 - u)"
    by (simp add: u_def)
  have c3: "(1 + u) * (1 + u) \<le> 2"
    by (simp add: u_def)
  have "v \<le> (a * (1 + u)) * (b * (1 + u)) * (1 + u)"
    using v(2) up u by (meson add_nonneg_nonneg mult_right_mono order_trans zero_le_one)
  also have "\<dots> = a * b * ((1 + u) * (1 + u) * (1 + u))"
    by (simp add: mult_ac)
  also have "\<dots> \<le> a * b * (1 + 4 * u)"
    using c1 ab by (rule mult_left_mono)
  finally have hi: "v \<le> a * b * (1 + 4 * u)" .
  have "a * b * (1 - 4 * u) \<le> a * b * ((1 - u) * (1 - u) * (1 - u))"
    using c2 ab by (rule mult_left_mono)
  also have "\<dots> = (a * (1 - u)) * (b * (1 - u)) * (1 - u)"
    by (simp add: mult_ac)
  also have "\<dots> \<le> va * vb * (1 - u)"
    using lo u by (intro mult_right_mono) simp_all
  also have "\<dots> \<le> v" by (rule v(1))
  finally have lw: "a * b * (1 - 4 * u) \<le> v" .
  from hi have hi': "v - a * b \<le> a * b * (4 * u)"
    by (simp add: algebra_simps)
  from lw have lw': "a * b - v \<le> a * b * (4 * u)"
    by (simp add: algebra_simps)
  from hi' lw' have "\<bar>v - a * b\<bar> \<le> a * b * (4 * u)"
    by (simp add: abs_le_iff)
  then show "\<bar>v - a * b\<bar> \<le> a * b * (4 / 2 ^ 53)"
    by (simp add: u_def)
  have "va * vb \<le> a * b * ((1 + u) * (1 + u))"
    using up by (simp add: mult_ac)
  also have "\<dots> \<le> a * b * 2"
    using c3 ab by (rule mult_left_mono)
  finally show "va * vb \<le> a * b * 2" .
qed


lemma max_reads_bounds:
  assumes "0 \<le> pct" "pct < 2 ^ 1000" "n < 2 ^ 63" "int n * pct < 2 ^ 50"
  shows "\<exists>m. max_reads n pct = Inr m \<and> 0 \<le> m \<and>
    int n * pct div 100 - 1 \<le> m \<and> m \<le> int n * pct div 100"
proof -
  define xq where "xq = real_of_int pct / real_of_int 100"
  define xn where "xn = real_of_int (int n) / real_of_int 1"
  define x where "x = xn * xq"
  define k where "k = int n * pct div 100"
  have xq: "0 \<le> xq" "\<bar>xq\<bar> < 2 ^ 1023"
  proof -
    show "0 \<le> xq" using assms(1) by (simp add: xq_def)
    have "real_of_int pct < real_of_int (2 ^ 1000)"
      using assms(2) by (simp only: of_int_less_iff)
    then have "xq < 2 ^ 1000" using assms(1) by (simp add: xq_def)
    also have "(2::real) ^ 1000 \<le> 2 ^ 1023" by simp
    finally show "\<bar>xq\<bar> < 2 ^ 1023" using \<open>0 \<le> xq\<close> by simp
  qed
  have xn: "0 \<le> xn" "\<bar>xn\<bar> < 2 ^ 1023"
  proof -
    show "0 \<le> xn" by (simp add: xn_def)
    have "real n < real (2 ^ 63)"
      using assms(3) by (simp only: of_nat_less_iff)
    then have "xn < 2 ^ 63" by (simp add: xn_def)
    also have "(2::real) ^ 63 \<le> 2 ^ 1023" by simp
    finally show "\<bar>xn\<bar> < 2 ^ 1023" using \<open>0 \<le> xn\<close> by simp
  qed
  have x100: "x * 100 = real_of_int (int n * pct)"
    by (simp add: x_def xn_def xq_def)
  have "real_of_int (int n * pct) < real_of_int (2 ^ 50)"
    using assms(4) by (simp only: of_int_less_iff)
  then have xs: "x * 100 < 2 ^ 50"
    by (simp add: x100)
  have x0: "0 \<le> x"
    using xq(1) xn(1) by (simp add: x_def)
  obtain mq eq where q: "to_double pct 100 = Float mq eq"
    using to_double_finite [of 100 pct] xq(2) by (auto simp: xq_def)
  obtain mn en where nf: "to_double (int n) 1 = Float mn en"
    using to_double_finite [of 1 "int n"] xn(2) by (auto simp: xn_def)
  define vq where "vq = float_val (Float mq eq)"
  define vn where "vn = float_val (Float mn en)"
  have eq: "\<bar>vq - xq\<bar> \<le> xq / 2 ^ 53"
    using to_double_error [OF _ q] xq(1) by (simp add: vq_def xq_def)
  have en: "\<bar>vn - xn\<bar> \<le> xn / 2 ^ 53"
    using to_double_error [OF _ nf] xn(1) by (simp add: vn_def xn_def)
  obtain A B where B: "0 < B"
    and mul: "float_mul (Float mn en) (Float mq eq) = to_double A B"
    and AB: "real_of_int A / real_of_int B = vn * vq"
    using float_mul_ratio [of mn en mq eq] by (auto simp: vn_def vq_def)
  have rough: "\<bar>vn * vq - vn * vq\<bar> \<le> \<bar>vn * vq\<bar> / 2 ^ 53"
    by simp
  from three_roundings(3,4) [OF xn(1) xq(1) en eq rough]
  have p: "0 \<le> vn * vq" "vn * vq \<le> x * 2"
    by (simp_all add: x_def)
  have "x * 2 \<le> x * 100" using x0 by simp
  also have "\<dots> < 2 ^ 50" by (rule xs)
  also have "(2::real) ^ 50 \<le> 2 ^ 1023" by simp
  finally have "x * 2 < 2 ^ 1023" .
  with p have "\<bar>real_of_int A / real_of_int B\<bar> < 2 ^ 1023"
    by (simp add: AB)
  from to_double_finite [OF B this] obtain m e where r: "to_double A B = Float m e"
    by blast
  define v where "v = float_val (Float m e)"
  have ev: "\<bar>v - vn * vq\<bar> \<le> \<bar>vn * vq\<bar> / 2 ^ 53"
    using to_double_error [OF B r] by (simp add: v_def AB)
  from three_roundings(1,2) [OF xn(1) xq(1) en eq ev]
  have verr: "\<bar>v - x\<bar> \<le> x * (4 / 2 ^ 53)" and v0: "0 \<le> v"
    by (simp_all add: x_def)
  have "float_to_int (float_mul (Float mn en) (Float mq eq)) = Inr \<lfloor>v\<rfloor>"
    unfolding mul r v_def using v0 by (intro float_to_int_floor) (simp add: v_def)
  then have res: "max_reads n pct = Inr \<lfloor>v\<rfloor>"
    by (simp add: max_reads_def int_true_div_def int_to_float_def q nf
        del: float_mul.simps float_to_int.simps)
  have "x * (4 / 2 ^ 53) = x * 100 * (4 / 2 ^ 53 / 100)"
    by simp
  also have "\<dots> \<le> 2 ^ 50 * (4 / 2 ^ 53 / 100)"
    using xs by (intro mult_right_mono) simp_all
  also have "\<dots> = 1 / 200" by simp
  finally have small: "x * (4 / 2 ^ 53) \<le> 1 / 200" .
  have kx: "real_of_int k \<le> x" "x \<le> real_of_int k + 99 / 100"
  proof -
    define r where "r = int n * pct mod 100"
    have r: "0 \<le> r" "r \<le> 99" by (simp_all add: r_def)
    have "int n * pct = 100 * k + r"
      by (simp add: k_def r_def)
    then have "x * 100 = 100 * real_of_int k + real_of_int r"
      by (simp add: x100)
    moreover have "0 \<le> real_of_int r" "real_of_int r \<le> 99"
      using r by simp_all
    ultimately show "real_of_int k \<le> x" "x \<le> real_of_int k + 99 / 100"
      by linarith+
  qed
  from verr small kx have "v < real_of_int k + 1" "real_of_int k - 1 \<le> v"
    by linarith+
  then have "\<lfloor>v\<rfloor> \<le> k" "k - 1 \<le> \<lfloor>v\<rfloor>"
    by linarith+
  moreover have "0 \<le> \<lfloor>v\<rfloor>"
    using v0 by simp
  ultimately show ?thesis
    using res by (simp add: k_def)
qed

subsection \<open>The selection of reads\<close>

text \<open>
  C1. With the records \<open>[(a,100),(b,50),(c,10)]\<close> and a budget of 120 bases, the
  loop accumulates along \<^verbatim>\<open>np.argsort(lengths)\<close>, the ascending order: 10, 60, 160. It
  breaks at the third read with \<open>last = 2\<close>, and the two longest reads \<open>a\<close> and
  \<open>b\<close> (150 bases) are written, \<open>c\<close> alone going to the others. The only argsort of
  these lengths is \<open>[2, 1, 0]\<close>.
\<close>

theorem budget_example_selects_two:
  "is_argsort (lengths_of [(''a'', 100), (''b'', 50), (''c'', 10)]) [2, 1, 0] \<and>
   argsort_stable (lengths_of [(''a'', 100), (''b'', 50), (''c'', 10)]) = [2, 1, 0] \<and>
   extract_long_reads [(''a'', 100), (''b'', 50), (''c'', 10)] None (Some 120) True [2, 1, 0]
     = Inr ([''a'', ''b''], Some [''c''])"
proof -
  have l: "lengths_of [(''a'', 100), (''b'', 50), (''c'', 10)] = [100, 50, 10]"
    by (simp add: lengths_of_def)
  have i: "ids_of [(''a'', 100), (''b'', 50), (''c'', 10)] = [''a'', ''b'', ''c'']"
    by (simp add: ids_of_def)
  have s: "is_argsort [100, 50, 10] [2, 1, 0]"
    by (simp add: is_argsort_def is_permutation_def upt_conv_Cons)
  have t: "argsort_stable [100, 50, 10] = [2, 1, 0]"
    by (simp add: argsort_stable_def upt_conv_Cons)
  have b: "budget_longest [100, 50, 10] 120 [2, 1, 0] = [0, 1]"
    by (simp add: budget_longest_def wrap_int64_def)
  have w: "written_output [''a'', ''b'', ''c''] [0, 1] = [''a'', ''b'']"
    by (simp add: written_output_def)
  have o: "written_others [''a'', ''b'', ''c''] [0, 1] = [''c'']"
    by (simp add: written_others_def upt_conv_Cons)
  have c: "select_longest [100, 50, 10] None (Some 120) [2, 1, 0] = Inr [0, 1]"
    by (simp only: select_longest_def option.case b)
  show ?thesis
    unfolding extract_long_reads_def l i
    by (simp only: s t c w o sum.case if_True simp_thms)
qed

lemma is_permutation_set: "is_permutation n p \<Longrightarrow> set p = {0..<n}"
  by (metis is_permutation_def set_sort set_upt)

lemma is_permutation_length: "is_permutation n p \<Longrightarrow> length p = n"
  by (metis is_permutation_def length_sort length_upt diff_zero)

lemma is_permutation_empty: "is_permutation 0 p \<Longrightarrow> p = []"
  using is_permutation_length [of 0 p] by simp

lemma written_partition:
  assumes "distinct ids" "set sel \<subseteq> {0..<length ids}"
  shows "set (written_output ids sel) \<inter> set (written_others ids sel) = {} \<and>
    set (written_output ids sel) \<union> set (written_others ids sel) = set ids"
proof -
  let ?rest = "{0..<length ids} - set sel"
  have o: "set (written_output ids sel) = (\<lambda>i. ids ! i) ` set sel"
    by (simp add: written_output_def)
  have r: "set (written_others ids sel) = (\<lambda>i. ids ! i) ` ?rest"
    by (auto simp: written_others_def)
  have inj: "inj_on (\<lambda>i. ids ! i) {0..<length ids}"
    using assms(1) by (simp add: inj_on_nth)
  have "(\<lambda>i. ids ! i) ` set sel \<inter> (\<lambda>i. ids ! i) ` ?rest = (\<lambda>i. ids ! i) ` (set sel \<inter> ?rest)"
    using assms(2) by (intro inj_on_image_Int [OF inj, symmetric]) auto
  then have d: "(\<lambda>i. ids ! i) ` set sel \<inter> (\<lambda>i. ids ! i) ` ?rest = {}"
    by auto
  have "set sel \<union> ?rest = {0..<length ids}"
    using assms(2) by auto
  then have "(\<lambda>i. ids ! i) ` set sel \<union> (\<lambda>i. ids ! i) ` ?rest = (\<lambda>i. ids ! i) ` {0..<length ids}"
    by (metis image_Un)
  also have "\<dots> = set ids"
    by (metis nth_image order_refl take_all)
  finally show ?thesis
    using d by (simp add: o r)
qed

lemma budget_longest_subset: "set (budget_longest lengths bases p) \<subseteq> set p"
  by (auto simp: budget_longest_def Let_def dest: in_set_takeD)

lemma slice_from_subset: "set (slice_from i p) \<subseteq> set p"
  by (auto simp: slice_from_def Let_def dest: in_set_dropD)

lemma percent_longest_subset:
  "percent_longest lengths pct p = Inr sel \<Longrightarrow> set sel \<subseteq> set p"
  using slice_from_subset [of _ p]
  by (auto simp: percent_longest_def split: sum.splits)

text \<open>
  C8. When the others are requested and the selection returns, in either mode, the ids
  written to the output and the ids written to the others are disjoint and together are
  all the ids of the input. The ids are the keys of \<^verbatim>\<open>record_dict\<close>, hence distinct;
  \<open>p\<close> is the permutation of the indices that numpy returns (from
  \<^verbatim>\<open>np.argpartition\<close> or from \<^verbatim>\<open>np.argsort\<close>).
\<close>

theorem selected_others_partition:
  assumes "distinct (ids_of record_dict)"
    and "is_permutation (length record_dict) p"
    and "extract_long_reads record_dict longest bases True p = Inr (selected, Some others)"
  shows "set selected \<inter> set others = {} \<and> set selected \<union> set others = set (ids_of record_dict)"
proof -
  let ?ids = "ids_of record_dict"
  have n: "length ?ids = length record_dict"
    by (simp add: ids_of_def)
  from assms(3) obtain sel
    where s: "select_longest (lengths_of record_dict) longest bases p = Inr sel"
    and out: "selected = written_output ?ids sel" "others = written_others ?ids sel"
    unfolding extract_long_reads_def
    by (cases "select_longest (lengths_of record_dict) longest bases p") simp_all
  have sel: "set sel \<subseteq> set p"
  proof (cases bases)
    case None
    with s obtain pct where "percent_longest (lengths_of record_dict) pct p = Inr sel"
      by (cases longest) (simp_all add: select_longest_def)
    then show ?thesis by (rule percent_longest_subset)
  next
    case (Some b)
    with s have "sel = budget_longest (lengths_of record_dict) b p"
      by (simp add: select_longest_def)
    then show ?thesis by (simp add: budget_longest_subset)
  qed
  from sel have "set sel \<subseteq> {0..<length ?ids}"
    using is_permutation_set [OF assms(2)] n by simp
  from written_partition [OF assms(1) this] show ?thesis
    by (simp add: out)
qed


lemma example_lengths: "lengths_of [(''a'', 100), (''b'', 50), (''c'', 10)] = [100, 50, 10]"
  by (simp add: lengths_of_def)

lemma example_ids: "ids_of [(''a'', 100), (''b'', 50), (''c'', 10)] = [''a'', ''b'', ''c'']"
  by (simp add: ids_of_def)

lemma length_3: "length [x, y, z] = 3"
  by simp

lemma example_permutation: "is_permutation 3 [2, 1, 0]"
  by (simp add: is_permutation_def upt_conv_Cons)

lemma max_reads_3_0: "max_reads 3 0 = Inr 0"
  by (simp add: max_reads_def int_true_div_def int_to_float_def to_double_def round_ratio_def
      round_half_even_def bit_length.simps Let_def)

lemma max_reads_3_34: "max_reads 3 34 = Inr 1"
  by (simp add: max_reads_def int_true_div_def int_to_float_def to_double_def round_ratio_def
      round_half_even_def bit_length.simps Let_def)

lemma max_reads_3_101: "max_reads 3 101 = Inr 3"
  by (simp add: max_reads_def int_true_div_def int_to_float_def to_double_def round_ratio_def
      round_half_even_def bit_length.simps Let_def)

lemma max_reads_3_200: "max_reads 3 200 = Inr 6"
  by (simp add: max_reads_def int_true_div_def int_to_float_def to_double_def round_ratio_def
      round_half_even_def bit_length.simps Let_def)

lemma max_reads_100_29: "max_reads 100 29 = Inr 28"
  by (simp add: max_reads_def int_true_div_def int_to_float_def to_double_def round_ratio_def
      round_half_even_def bit_length.simps Let_def)

lemma percent_longest_eval:
  assumes "max_reads (length lengths) pct = Inr m" "argpartition_kth (length lengths) (- m) = Inr k"
  shows "percent_longest lengths pct p = Inr (slice_from (- m) p)"
  using assms by (simp add: percent_longest_def)

lemma extract_percent_eval:
  assumes "percent_longest (lengths_of record_dict) pct p = Inr sel"
  shows "extract_long_reads record_dict (Some pct) None others p =
    Inr (written_output (ids_of record_dict) sel,
         if others then Some (written_others (ids_of record_dict) sel) else None)"
  using assms by (simp add: extract_long_reads_def select_longest_def)

lemma example_percent_34:
  "extract_long_reads [(''a'', 100), (''b'', 50), (''c'', 10)] (Some 34) None True [2, 1, 0]
     = Inr ([''a''], Some [''b'', ''c''])"
proof -
  have k: "argpartition_kth (length [100, 50, 10 :: int]) (- 1) = Inr 2"
    by (simp add: argpartition_kth_def)
  have m: "max_reads (length [100, 50, 10 :: int]) 34 = Inr 1"
    unfolding length_3 by (rule max_reads_3_34)
  have s: "slice_from (- 1) [2, 1, 0 :: nat] = [0]"
    by (simp add: slice_from_def)
  have p: "percent_longest (lengths_of [(''a'', 100), (''b'', 50), (''c'', 10)]) 34 [2, 1, 0] = Inr [0]"
    unfolding example_lengths percent_longest_eval [OF m k] s ..
  have w: "written_output [''a'', ''b'', ''c''] [0] = [''a'']"
    by (simp add: written_output_def)
  have o: "written_others [''a'', ''b'', ''c''] [0] = [''b'', ''c'']"
    by (simp add: written_others_def upt_conv_Cons)
  show ?thesis
    unfolding extract_percent_eval [OF p] example_ids w o by simp
qed

theorem selected_others_partition_witness:
  "set [''a''] \<inter> set [''b'', ''c''] = {} \<and>
   set [''a''] \<union> set [''b'', ''c''] = set (ids_of [(''a'', 100), (''b'', 50), (''c'', 10)])"
proof -
  have d: "distinct (ids_of [(''a'', 100), (''b'', 50), (''c'', 10)])"
    by (simp add: example_ids)
  have p: "is_permutation (length [(''a'', 100 :: nat), (''b'', 50), (''c'', 10)]) [2, 1, 0]"
    unfolding length_3 by (rule example_permutation)
  from selected_others_partition [OF d p example_percent_34] show ?thesis .
qed

lemma max_reads_empty:
  assumes "\<bar>pct\<bar> < 2 ^ 1000"
  shows "max_reads 0 pct = Inr 0"
proof -
  have "real_of_int \<bar>pct\<bar> < real_of_int (2 ^ 1000)"
    using assms by (simp only: of_int_less_iff)
  then have "\<bar>real_of_int pct\<bar> < 2 ^ 1000"
    by simp
  also have "(2::real) ^ 1000 \<le> 2 ^ 1023 * 100"
    by simp
  finally have "\<bar>real_of_int pct / real_of_int 100\<bar> < 2 ^ 1023"
    by simp
  from to_double_finite [OF _ this] obtain mq eq where q: "to_double pct 100 = Float mq eq"
    by auto
  have z: "to_double 0 b = Float 0 0" for b
    by (simp add: to_double_def)
  have "float_mul (Float 0 0) (Float mq eq) = Float 0 0"
    by (simp add: z)
  then show ?thesis
    by (simp add: max_reads_def int_true_div_def int_to_float_def q z del: float_mul.simps)
qed

text \<open>
  C4. On the empty collection both modes return without raising, with no id selected and
  no other id: in percentage mode for every percentage whose quotient by 100 is a finite
  double (in particular every percentage from 0 to 100), in budget mode for every budget.
  The only array numpy can return for an empty \<^verbatim>\<open>lengths\<close> is the empty one.
\<close>

theorem empty_input_selects_nothing:
  assumes "\<bar>pct\<bar> < 2 ^ 1000" and "is_permutation 0 p"
  shows "extract_long_reads [] (Some pct) None others p
           = Inr ([], if others then Some [] else None) \<and>
         extract_long_reads [] longest (Some bases) others p
           = Inr ([], if others then Some [] else None)"
proof -
  have p: "p = []"
    using assms(2) by (rule is_permutation_empty)
  have k: "argpartition_kth (length ([] :: int list)) (- 0) = Inr 0"
    by (simp add: argpartition_kth_def)
  have m: "max_reads (length ([] :: int list)) pct = Inr 0"
    using max_reads_empty [OF assms(1)] by simp
  have "percent_longest (lengths_of []) pct [] = Inr []"
    using percent_longest_eval [OF m k, of "[]"] by (simp add: lengths_of_def slice_from_def)
  from extract_percent_eval [OF this, of others]
  have a: "extract_long_reads [] (Some pct) None others [] = Inr ([], if others then Some [] else None)"
    by (simp add: written_output_def written_others_def ids_of_def)
  have b: "extract_long_reads [] longest (Some bases) others []
    = Inr ([], if others then Some [] else None)"
    by (simp add: extract_long_reads_def select_longest_def budget_longest_def
        written_output_def written_others_def ids_of_def lengths_of_def)
  show ?thesis
    unfolding p using a b by simp
qed

theorem empty_input_selects_nothing_witness:
  "extract_long_reads [] (Some 50) None True [] = Inr ([], Some []) \<and>
   extract_long_reads [] None (Some 120) True [] = Inr ([], Some [])"
proof -
  have a: "\<bar>50 :: int\<bar> < 2 ^ 1000" by simp
  have p: "is_permutation 0 []" by (simp add: is_permutation_def)
  from empty_input_selects_nothing [OF a p, of True None 120] show ?thesis by simp
qed


lemma written_all:
  assumes "set p = {0..<length ids}"
  shows "written_others ids p = []" and "set (written_output ids p) = set ids"
proof -
  show "written_others ids p = []"
    by (simp add: written_others_def assms)
  have "set (written_output ids p) = (\<lambda>i. ids ! i) ` {0..<length ids}"
    by (simp add: written_output_def assms)
  also have "\<dots> = set ids"
    by (metis nth_image order_refl take_all)
  finally show "set (written_output ids p) = set ids" .
qed

text \<open>
  C9. In percentage mode, when \<open>floor(total * pct / 100)\<close> is 0 on a collection that
  is not empty (of fewer than \<open>2 ^ 63\<close> reads, the bound of a Python list), the
  computed \<^verbatim>\<open>max_reads\<close> is 0, the slice \<^verbatim>\<open>[-0:]\<close> is the whole array and every read
  is written to the output, none to the others.
\<close>

theorem zero_max_reads_selects_all:
  assumes "record_dict \<noteq> []" and "length record_dict < 2 ^ 63"
    and "int (length record_dict) * pct div 100 = 0"
    and "is_permutation (length record_dict) p"
  shows "max_reads (length record_dict) pct = Inr 0 \<and>
    extract_long_reads record_dict (Some pct) None True p
      = Inr (written_output (ids_of record_dict) p, Some []) \<and>
    set (written_output (ids_of record_dict) p) = set (ids_of record_dict) \<and>
    length (written_output (ids_of record_dict) p) = length record_dict"
proof -
  define n where "n = length record_dict"
  have n: "0 < n" using assms(1) by (simp add: n_def)
  from assms(3) have "0 \<le> int n * pct \<and> int n * pct < 100 \<or>
      int n * pct \<le> 0 \<and> 100 < int n * pct"
    by (simp add: n_def zdiv_eq_0_iff)
  then have r: "0 \<le> int n * pct" "int n * pct < 100"
    by linarith+
  have pct: "0 \<le> pct"
    using r(1) n by (simp add: zero_le_mult_iff)
  have "1 * pct \<le> int n * pct"
    using n pct by (intro mult_right_mono) simp_all
  with r(2) have "pct < 100" by simp
  then have b: "pct < 2 ^ 1000" by simp
  have c: "int n * pct < 2 ^ 50" using r(2) by simp
  from max_reads_bounds [OF pct b _ c] assms(2,3)
  have m: "max_reads (length (lengths_of record_dict)) pct = Inr 0"
    by (auto simp: n_def lengths_of_def)
  have k: "argpartition_kth (length (lengths_of record_dict)) (- 0) = Inr 0"
    using n by (simp add: argpartition_kth_def n_def lengths_of_def)
  have "percent_longest (lengths_of record_dict) pct p = Inr p"
    using percent_longest_eval [OF m k, of p] by (simp add: slice_from_def)
  from extract_percent_eval [OF this, of True]
  have e: "extract_long_reads record_dict (Some pct) None True p
    = Inr (written_output (ids_of record_dict) p, Some (written_others (ids_of record_dict) p))"
    by simp
  have sp: "set p = {0..<length (ids_of record_dict)}"
    using is_permutation_set [OF assms(4)] by (simp add: ids_of_def)
  have "length (written_output (ids_of record_dict) p) = length record_dict"
    using is_permutation_length [OF assms(4)] by (simp add: written_output_def)
  then show ?thesis
    using m e written_all [OF sp] by (simp add: lengths_of_def)
qed

theorem zero_max_reads_selects_all_witness:
  "max_reads 3 10 = Inr 0 \<and>
   extract_long_reads [(''a'', 100), (''b'', 50), (''c'', 10)] (Some 10) None True [2, 1, 0]
     = Inr ([''c'', ''b'', ''a''], Some [])"
proof -
  have a: "[(''a'', 100 :: nat), (''b'', 50), (''c'', 10)] \<noteq> []" by simp
  have b: "length [(''a'', 100 :: nat), (''b'', 50), (''c'', 10)] < 2 ^ 63"
    unfolding length_3 by simp
  have c: "int (length [(''a'', 100 :: nat), (''b'', 50), (''c'', 10)]) * 10 div 100 = 0"
    unfolding length_3 by simp
  have d: "is_permutation (length [(''a'', 100 :: nat), (''b'', 50), (''c'', 10)]) [2, 1, 0]"
    unfolding length_3 by (rule example_permutation)
  have w: "written_output [''a'', ''b'', ''c''] [2, 1, 0] = [''c'', ''b'', ''a'']"
    by (simp add: written_output_def)
  from zero_max_reads_selects_all [OF a b c d] show ?thesis
    unfolding length_3 example_ids w by simp
qed

lemma example_argpartition_0: "is_argpartition [100, 50, 10] 0 [2, 1, 0]"
  by (simp add: is_argpartition_def is_permutation_def upt_conv_Cons)

lemma example_all_written:
  "written_output [''a'', ''b'', ''c''] [2, 1, 0] = [''c'', ''b'', ''a'']"
  "written_others [''a'', ''b'', ''c''] [2, 1, 0] = []"
  by (simp_all add: written_output_def written_others_def upt_conv_Cons)

text \<open>
  C2, as stated, fails: with three reads and a percentage of 0,
  \<open>floor(3 * 0 / 100) = 0\<close>, and all three reads are selected.
\<close>

theorem percent_zero_selects_all:
  "argpartition_result (lengths_of [(''a'', 100), (''b'', 50), (''c'', 10)]) 0 [2, 1, 0] \<and>
   extract_long_reads [(''a'', 100), (''b'', 50), (''c'', 10)] (Some 0) None True [2, 1, 0]
     = Inr ([''c'', ''b'', ''a''], Some []) \<and>
   int (length [(''a'', 100 :: nat), (''b'', 50), (''c'', 10)]) * 0 div 100 = 0"
proof -
  have m: "max_reads (length [100, 50, 10 :: int]) 0 = Inr 0"
    unfolding length_3 by (rule max_reads_3_0)
  have k: "argpartition_kth (length [100, 50, 10 :: int]) (- 0) = Inr 0"
    by (simp add: argpartition_kth_def)
  have s: "slice_from (- 0) [2, 1, 0 :: nat] = [2, 1, 0]"
    by (simp add: slice_from_def)
  have p: "percent_longest (lengths_of [(''a'', 100), (''b'', 50), (''c'', 10)]) 0 [2, 1, 0]
    = Inr [2, 1, 0]"
    unfolding example_lengths percent_longest_eval [OF m k] s ..
  have r: "argpartition_result [100, 50, 10] 0 [2, 1, 0]"
    by (simp only: argpartition_result_def m k sum.case example_argpartition_0)
  show ?thesis
    unfolding extract_percent_eval [OF p] example_ids example_all_written example_lengths
    using r by simp
qed

text \<open>
  C5, as stated, fails: a percentage of 101 is outside \<open>[0, 100]\<close>, and with three
  reads the selection returns (all three reads) instead of raising.
\<close>

theorem percent_101_returns:
  "argpartition_result (lengths_of [(''a'', 100), (''b'', 50), (''c'', 10)]) 101 [2, 1, 0] \<and>
   extract_long_reads [(''a'', 100), (''b'', 50), (''c'', 10)] (Some 101) None True [2, 1, 0]
     = Inr ([''c'', ''b'', ''a''], Some [])"
proof -
  have m: "max_reads (length [100, 50, 10 :: int]) 101 = Inr 3"
    unfolding length_3 by (rule max_reads_3_101)
  have k: "argpartition_kth (length [100, 50, 10 :: int]) (- 3) = Inr 0"
    by (simp add: argpartition_kth_def)
  have s: "slice_from (- 3) [2, 1, 0 :: nat] = [2, 1, 0]"
    by (simp add: slice_from_def)
  have p: "percent_longest (lengths_of [(''a'', 100), (''b'', 50), (''c'', 10)]) 101 [2, 1, 0]
    = Inr [2, 1, 0]"
    unfolding example_lengths percent_longest_eval [OF m k] s ..
  have r: "argpartition_result [100, 50, 10] 101 [2, 1, 0]"
    by (simp only: argpartition_result_def m k sum.case example_argpartition_0)
  show ?thesis
    unfolding extract_percent_eval [OF p] example_ids example_all_written example_lengths
    using r by simp
qed

lemma isl_extract_percent:
  "isl (extract_long_reads record_dict (Some pct) None others p) \<longleftrightarrow>
     (case max_reads (length record_dict) pct of
        Inl e \<Rightarrow> True
      | Inr m \<Rightarrow> isl (argpartition_kth (length record_dict) (- m)))"
  by (simp add: extract_long_reads_def select_longest_def percent_longest_def lengths_of_def
      split: sum.splits)

lemma isl_argpartition_kth:
  assumes "0 < n" "n < 2 ^ 63"
  shows "isl (argpartition_kth n (- m)) \<longleftrightarrow>
    int n < m \<or> (m \<le> - int n \<and> (m \<le> - (2 ^ 64) \<or> int n - 2 ^ 64 < m))"
proof -
  have b: "int n < 2 ^ 63"
    using assms(2) by (metis of_nat_less_iff of_nat_numeral of_nat_power)
  show ?thesis
    using assms(1) b by (auto simp: argpartition_kth_def Let_def)
qed

lemma max_reads_2048_wraps:
  "max_reads 2048 (- 900719925474099100) = Inr (- (2 ^ 64 - 2048))"
  by (simp add: max_reads_def int_true_div_def int_to_float_def to_double_def round_ratio_def
      round_half_even_def bit_length.simps Let_def)

text \<open>
  C5, amended. The percentage is not checked against a range. On a collection of \<open>n\<close>
  reads that is not empty, percentage mode raises exactly when the float computation
  overflows or \<^verbatim>\<open>np.argpartition\<close> refuses \<open>kth = - max_reads\<close>: when
  \<^verbatim>\<open>max_reads\<close> is greater than \<open>n\<close>, or when it is at most \<open>- n\<close> and not in the
  window from \<open>- 2 ^ 64 + 1\<close> to \<open>n - 2 ^ 64\<close>, where the cast of \<open>kth\<close> to a signed
  index wraps around into range. For every other percentage it writes its output.
\<close>

theorem percent_raises_iff_kth_out_of_bounds:
  assumes "record_dict \<noteq> []" and "length record_dict < 2 ^ 63"
  shows "isl (extract_long_reads record_dict (Some pct) None others p) \<longleftrightarrow>
     (case max_reads (length record_dict) pct of
        Inl e \<Rightarrow> True
      | Inr m \<Rightarrow>
          int (length record_dict) < m \<or>
          (m \<le> - int (length record_dict) \<and>
           (m \<le> - (2 ^ 64) \<or> int (length record_dict) - 2 ^ 64 < m)))"
proof -
  have "0 < length record_dict" using assms(1) by simp
  from isl_argpartition_kth [OF this assms(2)] show ?thesis
    unfolding isl_extract_percent by (simp split: sum.splits)
qed

theorem percent_raises_iff_kth_out_of_bounds_witness:
  "isl (extract_long_reads [(''a'', 100), (''b'', 50), (''c'', 10)] (Some 200) None True [2, 1, 0]) \<and>
   \<not> isl (extract_long_reads [(''a'', 100), (''b'', 50), (''c'', 10)] (Some 101) None True [2, 1, 0]) \<and>
   \<not> isl (extract_long_reads (map (\<lambda>i. (dec_str i, 100)) [0..<2048])
            (Some (- 900719925474099100)) None True [0..<2048])"
proof -
  have a: "[(''a'', 100 :: nat), (''b'', 50), (''c'', 10)] \<noteq> []" by simp
  have b: "length [(''a'', 100 :: nat), (''b'', 50), (''c'', 10)] < 2 ^ 63"
    unfolding length_3 by simp
  have l: "length (map (\<lambda>i. (dec_str i, 100 :: nat)) [0..<2048]) = 2048"
    by simp
  have c: "map (\<lambda>i. (dec_str i, 100 :: nat)) [0..<2048] \<noteq> []"
    using l by fastforce
  have d: "length (map (\<lambda>i. (dec_str i, 100 :: nat)) [0..<2048]) < 2 ^ 63"
    unfolding l by simp
  have "isl (extract_long_reads [(''a'', 100), (''b'', 50), (''c'', 10)] (Some 200) None True [2, 1, 0])"
    unfolding percent_raises_iff_kth_out_of_bounds [OF a b] length_3 max_reads_3_200 by simp
  moreover
  have "\<not> isl (extract_long_reads [(''a'', 100), (''b'', 50), (''c'', 10)] (Some 101) None True [2, 1, 0])"
    unfolding percent_raises_iff_kth_out_of_bounds [OF a b] length_3 max_reads_3_101 by simp
  moreover
  have "\<not> isl (extract_long_reads (map (\<lambda>i. (dec_str i, 100)) [0..<2048])
            (Some (- 900719925474099100)) None True [0..<2048])"
    unfolding percent_raises_iff_kth_out_of_bounds [OF c d] l max_reads_2048_wraps by simp
  ultimately show ?thesis by blast
qed

lemma argpartition_top:
  assumes "is_argpartition a k p" "i \<in> set (drop k p)" "j < length a" "j \<notin> set (drop k p)"
  shows "a ! j \<le> a ! i"
proof -
  from assms(1) have perm: "is_permutation (length a) p"
    and lo: "\<forall>x\<in>set (take k p). a ! x \<le> a ! (p ! k)"
    and hi: "\<forall>x\<in>set (drop k p). a ! (p ! k) \<le> a ! x"
    by (simp_all add: is_argpartition_def list_all_iff)
  have "set p = set (take k p) \<union> set (drop k p)"
    by (metis append_take_drop_id set_append)
  with is_permutation_set [OF perm] assms(3,4) have "j \<in> set (take k p)"
    by auto
  with lo have "a ! j \<le> a ! (p ! k)" by simp
  also from hi assms(2) have "a ! (p ! k) \<le> a ! i" by simp
  finally show ?thesis .
qed

text \<open>
  C2, amended. For a percentage from 0 to 100 (and fewer than \<open>2 ^ 43\<close> reads) the
  selection returns; \<^verbatim>\<open>max_reads\<close>, computed in double precision, is
  \<open>floor(total * pct / 100)\<close> or one less; when it is at least 1, exactly
  \<^verbatim>\<open>max_reads\<close> ids are written to the output; and no selected read is shorter than
  a read that is not selected. \<open>p\<close> is any array that \<^verbatim>\<open>np.argpartition\<close> may
  return for the call.
\<close>

theorem percent_selects_longest:
  assumes "0 \<le> pct" and "pct \<le> 100" and "length record_dict < 2 ^ 43"
    and "argpartition_result (lengths_of record_dict) pct p"
  shows "\<exists>m sel.
      max_reads (length record_dict) pct = Inr m \<and>
      int (length record_dict) * pct div 100 - 1 \<le> m \<and>
      m \<le> int (length record_dict) * pct div 100 \<and>
      percent_longest (lengths_of record_dict) pct p = Inr sel \<and>
      extract_long_reads record_dict (Some pct) None True p =
        Inr (written_output (ids_of record_dict) sel,
             Some (written_others (ids_of record_dict) sel)) \<and>
      (1 \<le> m \<longrightarrow> length (written_output (ids_of record_dict) sel) = nat m) \<and>
      (\<forall>i\<in>set sel. \<forall>j<length record_dict. j \<notin> set sel \<longrightarrow>
         snd (record_dict ! j) \<le> snd (record_dict ! i))"
proof -
  define n where "n = length record_dict"
  define a where "a = lengths_of record_dict"
  have la: "length a = n"
    by (simp add: a_def n_def lengths_of_def)
  have n43: "int n < 2 ^ 43"
    using assms(3) unfolding n_def by (metis of_nat_less_iff of_nat_numeral of_nat_power)
  have np: "int n * pct \<le> int n * 100"
    using assms(2) by (intro mult_left_mono) simp_all
  with n43 have c: "int n * pct < 2 ^ 50" by simp
  have b: "pct < 2 ^ 1000" using assms(2) by simp
  have n63: "n < 2 ^ 63"
  proof -
    have "n < 2 ^ 43" using assms(3) by (simp add: n_def)
    also have "(2::nat) ^ 43 \<le> 2 ^ 63" by simp
    finally show ?thesis .
  qed
  from max_reads_bounds [OF assms(1) b n63 c] obtain m
    where m: "max_reads n pct = Inr m" and m0: "0 \<le> m"
      and mlo: "int n * pct div 100 - 1 \<le> m" and mhi: "m \<le> int n * pct div 100"
    by blast
  have "int n * pct div 100 \<le> int n * 100 div 100"
    using np by (rule zdiv_mono1) simp
  with mhi have mn: "m \<le> int n" by simp
  define k where "k = (if m = 0 then 0 else n - nat m)"
  have kth: "argpartition_kth n (- m) = Inr k"
    using m0 mn n43 by (auto simp: argpartition_kth_def k_def Let_def)
  have ap: "is_argpartition a k p"
    using assms(4) by (simp add: argpartition_result_def a_def [symmetric] la m kth)
  then have perm: "is_permutation n p"
    by (simp add: is_argpartition_def la)
  have lp: "length p = n"
    using perm by (rule is_permutation_length)
  have nm: "nat (int n - m) = n - nat m"
    using m0 mn by (simp add: nat_diff_distrib)
  have sl: "slice_from (- m) p = drop k p"
    using m0 mn by (auto simp: slice_from_def k_def lp Let_def nm)
  have sel: "percent_longest a pct p = Inr (drop k p)"
    using percent_longest_eval [of a pct m k p] m kth by (simp add: la sl)
  have len: "1 \<le> m \<longrightarrow> length (written_output (ids_of record_dict) (drop k p)) = nat m"
    using mn by (auto simp: written_output_def lp k_def)
  have top: "\<forall>i\<in>set (drop k p). \<forall>j<length record_dict. j \<notin> set (drop k p) \<longrightarrow>
    snd (record_dict ! j) \<le> snd (record_dict ! i)"
  proof (intro ballI allI impI)
    fix i j
    assume i: "i \<in> set (drop k p)" and j: "j < length record_dict" "j \<notin> set (drop k p)"
    from i have "i \<in> set p" by (rule in_set_dropD)
    with is_permutation_set [OF perm] have i': "i < length record_dict"
      by (simp add: n_def)
    from j have "a ! j \<le> a ! i"
      using argpartition_top [OF ap i] by (simp add: la n_def)
    then show "snd (record_dict ! j) \<le> snd (record_dict ! i)"
      using i' j(1) by (simp add: a_def lengths_of_def)
  qed
  show ?thesis
    using m mlo mhi sel len top extract_percent_eval [of record_dict pct p "drop k p" True]
    unfolding n_def a_def by auto
qed

theorem percent_selects_longest_witness:
  "max_reads 3 34 = Inr 1 \<and>
   argpartition_result (lengths_of [(''a'', 100), (''b'', 50), (''c'', 10)]) 34 [2, 1, 0] \<and>
   extract_long_reads [(''a'', 100), (''b'', 50), (''c'', 10)] (Some 34) None True [2, 1, 0]
     = Inr ([''a''], Some [''b'', ''c'']) \<and>
   (\<exists>m sel.
      max_reads (length [(''a'', 100 :: nat), (''b'', 50), (''c'', 10)]) 34 = Inr m \<and>
      percent_longest (lengths_of [(''a'', 100), (''b'', 50), (''c'', 10)]) 34 [2, 1, 0] = Inr sel \<and>
      length (written_output (ids_of [(''a'', 100), (''b'', 50), (''c'', 10)]) sel) = nat m)"
proof -
  have a: "(0::int) \<le> 34" "(34::int) \<le> 100" by simp_all
  have b: "length [(''a'', 100 :: nat), (''b'', 50), (''c'', 10)] < 2 ^ 43"
    unfolding length_3 by simp
  have m: "max_reads (length [100, 50, 10 :: int]) 34 = Inr 1"
    unfolding length_3 by (rule max_reads_3_34)
  have k: "argpartition_kth (length [100, 50, 10 :: int]) (- 1) = Inr 2"
    by (simp add: argpartition_kth_def)
  have p: "is_argpartition [100, 50, 10] 2 [2, 1, 0]"
    by (simp add: is_argpartition_def is_permutation_def upt_conv_Cons)
  have r: "argpartition_result (lengths_of [(''a'', 100), (''b'', 50), (''c'', 10)]) 34 [2, 1, 0]"
    unfolding example_lengths by (simp only: argpartition_result_def m k sum.case p)
  from percent_selects_longest [OF a b r] obtain m' sel
    where "max_reads (length [(''a'', 100 :: nat), (''b'', 50), (''c'', 10)]) 34 = Inr m'"
      and "percent_longest (lengths_of [(''a'', 100), (''b'', 50), (''c'', 10)]) 34 [2, 1, 0] = Inr sel"
      and "1 \<le> m' \<longrightarrow>
        length (written_output (ids_of [(''a'', 100), (''b'', 50), (''c'', 10)]) sel) = nat m'"
    by blast
  moreover from this(1) have "m' = 1"
    unfolding length_3 max_reads_3_34 by simp
  ultimately show ?thesis
    using max_reads_3_34 r example_percent_34 by auto
qed


subsection \<open>Region strings\<close>

lemma not_digit_dash [simp]: "\<not> is_digit CHR ''-''"
  by (simp add: is_digit_def)

lemma not_word_colon [simp]: "\<not> is_word CHR '':''"
  by (simp add: is_word_def)

lemma digit_not_colon: "is_digit c \<Longrightarrow> c \<noteq> CHR '':''"
  by (auto simp: is_digit_def)


lemma dropWhile_none: "\<forall>x\<in>set xs. \<not> P x \<Longrightarrow> dropWhile P xs = xs"
  by (cases xs) auto

lemma start_group_digits:
  assumes "list_all is_digit e"
  shows "start_group e = ([], e)"
proof -
  have "dropWhile is_digit e = []"
    using assms by (simp add: list_all_iff)
  show ?thesis
    by (subst start_group.simps, subst \<open>dropWhile is_digit e = []\<close>, simp)
qed

lemma start_group_step:
  assumes "g \<noteq> []" "list_all is_digit g"
  shows "start_group (g @ CHR ''-'' # t) =
    (case start_group t of (h, rest) \<Rightarrow> (g @ CHR ''-'' # h, rest))"
proof -
  have t: "takeWhile is_digit (g @ CHR ''-'' # t) = g"
    using assms by (simp add: list_all_iff takeWhile_tail)
  have d: "dropWhile is_digit (g @ CHR ''-'' # t) = CHR ''-'' # t"
    using assms by (simp add: list_all_iff dropWhile_append3)
  show ?thesis
    by (subst start_group.simps) (simp add: t d assms split: prod.splits)
qed

lemma start_group_groups:
  assumes "list_all (\<lambda>g. g \<noteq> [] \<and> list_all is_digit g) gs" "list_all is_digit e"
  shows "start_group (concat (map (\<lambda>g. g @ ''-'') gs) @ e) = (concat (map (\<lambda>g. g @ ''-'') gs), e)"
  using assms
proof (induction gs)
  case Nil
  then show ?case by (simp add: start_group_digits)
next
  case (Cons g gs)
  then show ?case by (simp add: start_group_step)
qed

lemma groups_no_colon:
  assumes "list_all (\<lambda>g. g \<noteq> [] \<and> list_all is_digit g) gs" "list_all is_digit e"
  shows "\<forall>c\<in>set (concat (map (\<lambda>g. g @ ''-'') gs) @ e). \<not> c = CHR '':''"
  using assms by (auto simp: list_all_iff dest: digit_not_colon)

lemma match_canonical:
  assumes "name \<noteq> []" "list_all is_word name"
    and "list_all (\<lambda>g. g \<noteq> [] \<and> list_all is_digit g) gs" "list_all is_digit e"
  shows "region_decoder_match (name @ CHR '':'' # concat (map (\<lambda>g. g @ ''-'') gs) @ e)
    = Some (name, concat (map (\<lambda>g. g @ ''-'') gs), e)"
proof -
  let ?rest = "concat (map (\<lambda>g. g @ ''-'') gs) @ e"
  have t: "takeWhile is_word (name @ CHR '':'' # ?rest) = name"
    using assms(2) by (simp add: list_all_iff takeWhile_tail)
  have d: "dropWhile is_word (name @ CHR '':'' # ?rest) = CHR '':'' # ?rest"
    using assms(2) by (simp add: list_all_iff dropWhile_append3)
  have c: "dropWhile (\<lambda>c. c = CHR '':'') ?rest = ?rest"
    by (rule dropWhile_none) (rule groups_no_colon [OF assms(3,4)])
  have e: "takeWhile is_digit e = e"
    using assms(4) by (simp add: list_all_iff)
  show ?thesis
    unfolding region_decoder_match_def t d
    by (simp add: assms(1) c start_group_groups [OF assms(3,4)] e)
qed

lemma filter_dash_groups:
  assumes "list_all (\<lambda>g. g \<noteq> [] \<and> list_all is_digit g) gs"
  shows "filter (\<lambda>c. c \<noteq> CHR ''-'') (concat (map (\<lambda>g. g @ ''-'') gs)) = concat gs"
  using assms
proof (induction gs)
  case Nil
  then show ?case by simp
next
  case (Cons g gs)
  have "filter (\<lambda>c. c \<noteq> CHR ''-'') g = g"
    using Cons.prems by (auto simp: list_all_iff filter_id_conv)
  with Cons show ?case by simp
qed

lemma digit_char:
  assumes "d < 10"
  shows "is_digit (''0123456789'' ! d) \<and> (of_char (''0123456789'' ! d) :: nat) = 48 + d"
proof -
  from assms
  have "d = 0 \<or> d = 1 \<or> d = 2 \<or> d = 3 \<or> d = 4 \<or> d = 5 \<or> d = 6 \<or> d = 7 \<or> d = 8 \<or> d = 9"
    by arith
  then show ?thesis
    by (auto simp: is_digit_def)
qed

lemma dec_str_digits: "list_all is_digit (dec_str n)"
proof (induction n rule: dec_str.induct)
  case (1 n)
  show ?case
  proof (cases "n < 10")
    case True
    then show ?thesis by (subst dec_str.simps) (simp add: digit_char)
  next
    case False
    with 1 show ?thesis by (subst dec_str.simps) (simp add: digit_char)
  qed
qed

lemma dec_str_nonempty: "dec_str n \<noteq> []"
  by (subst dec_str.simps) simp


lemma digits_value_snoc: "digits_value (s @ [c]) = 10 * digits_value s + (of_char c - 48)"
  by (simp add: digits_value_def)

lemma digits_value_Nil: "digits_value [] = 0"
  by (simp add: digits_value_def)

lemma digits_value_dec_str: "digits_value (dec_str n) = n"
proof (induction n rule: dec_str.induct)
  case (1 n)
  show ?case
  proof (cases "n < 10")
    case True
    then show ?thesis by (subst dec_str.simps) (simp add: digits_value_def digit_char)
  next
    case False
    with 1 have "digits_value (dec_str (n div 10)) = n div 10" by simp
    with False show ?thesis
      by (subst dec_str.simps) (simp add: digits_value_snoc digit_char)
  qed
qed

lemma digits_value_bound: "list_all is_digit s \<Longrightarrow> digits_value s < 10 ^ length s"
proof (induction s rule: rev_induct)
  case Nil
  then show ?case by (simp add: digits_value_def)
next
  case (snoc c s)
  then have "digits_value s < 10 ^ length s" by simp
  then have "10 * digits_value s + 10 \<le> 10 * 10 ^ length s" by simp
  moreover from snoc.prems have "is_digit c" by simp
  then have "(of_char c :: nat) - 48 \<le> 9"
    unfolding is_digit_def Let_def by linarith
  ultimately show ?case
    by (simp add: digits_value_snoc)
qed

lemma dec_str_length: "n < 10 ^ k \<Longrightarrow> 0 < k \<Longrightarrow> length (dec_str n) \<le> k"
proof (induction n arbitrary: k rule: dec_str.induct)
  case (1 n)
  show ?case
  proof (cases "n < 10")
    case True
    with "1.prems" show ?thesis by (subst dec_str.simps) simp
  next
    case False
    from "1.prems" obtain j where k: "k = Suc j" by (cases k) auto
    have j: "0 < j"
    proof (rule ccontr)
      assume "\<not> 0 < j"
      with k "1.prems" False show False by simp
    qed
    from "1.prems" k have "n div 10 < 10 ^ j"
      by (simp add: less_mult_imp_div_less mult.commute)
    from "1.IH" [OF False this j] have "length (dec_str (n div 10)) \<le> j" .
    with False k show ?thesis by (subst dec_str.simps) simp
  qed
qed

lemma dec_str_digits_value_length:
  assumes "list_all is_digit s" "s \<noteq> []"
  shows "length (dec_str (digits_value s)) \<le> length s"
  using dec_str_length [OF digits_value_bound [OF assms(1)]] assms(2) by simp

lemma dec_str_0_length: "length (dec_str 0) = 1"
  by (subst dec_str.simps) simp

lemma py_int_short: "length s \<le> 4300 \<Longrightarrow> py_int s = Inr (int (digits_value s))"
  by (simp add: py_int_def)

lemma py_int_long: "4300 < length s \<Longrightarrow> py_int s = Inl ValueError"
  by (simp add: py_int_def)

lemma decode_start_eq:
  "decode_start st =
     (if 4300 < length (filter (\<lambda>c. c \<noteq> CHR ''-'') st) then Inl ValueError
      else Inr (int (digits_value (filter (\<lambda>c. c \<noteq> CHR ''-'') st))))"
  by (auto simp: decode_start_def Let_def py_int_def digits_value_Nil)

lemma decode_end_eq:
  "decode_end en =
     (if 4300 < length en then Inl ValueError
      else Inr (if en = [] then None else Some (int (digits_value en))))"
  by (auto simp: decode_end_def py_int_def)

lemma decode_region_eq:
  "decode_region s ref_lengths =
     (case region_decoder_match s of
        None \<Rightarrow> Inl AttributeError
      | Some (name, st, en) \<Rightarrow>
          if 4300 < length (filter (\<lambda>c. c \<noteq> CHR ''-'') st) \<or> 4300 < length en
          then Inl ValueError
          else if en = [] then
            (case ref_lengths of
               None \<Rightarrow> Inr (Region name (int (digits_value (filter (\<lambda>c. c \<noteq> CHR ''-'') st))) None)
             | Some lens \<Rightarrow>
                 (case lens name of
                    None \<Rightarrow> Inl KeyError
                  | Some v \<Rightarrow>
                      Inr (Region name (int (digits_value (filter (\<lambda>c. c \<noteq> CHR ''-'') st)))
                        (Some v))))
          else Inr (Region name (int (digits_value (filter (\<lambda>c. c \<noteq> CHR ''-'') st)))
                 (Some (int (digits_value en)))))"
  by (simp add: decode_region_def decode_start_eq decode_end_eq split: option.splits)

lemma start_group_chars:
  "start_group s = (g, rest) \<Longrightarrow> \<forall>c\<in>set g. is_digit c \<or> c = CHR ''-''"
proof (induction s arbitrary: g rest rule: start_group.induct)
  case (1 s)
  show ?case
  proof (cases "dropWhile is_digit s")
    case Nil
    with "1.prems" show ?thesis by (subst (asm) start_group.simps) simp
  next
    case (Cons c r)
    show ?thesis
    proof (cases "c = CHR ''-'' \<and> takeWhile is_digit s \<noteq> []")
      case False
      with Cons "1.prems" show ?thesis by (subst (asm) start_group.simps) auto
    next
      case True
      obtain g' rest' where r: "start_group r = (g', rest')"
        by (cases "start_group r")
      from "1.IH" [OF Cons True r] have ih: "\<forall>c\<in>set g'. is_digit c \<or> c = CHR ''-''" .
      from "1.prems" Cons True r have "g = takeWhile is_digit s @ [c] @ g'"
        by (subst (asm) start_group.simps) simp
      with ih True show ?thesis
        by (auto dest: set_takeWhileD)
    qed
  qed
qed

lemma match_Some_digits:
  assumes "region_decoder_match s = Some (name, st, en)"
  shows "list_all is_digit (filter (\<lambda>c. c \<noteq> CHR ''-'') st)" and "list_all is_digit en"
proof -
  from assms obtain t rest where sg: "start_group t = (st, rest)"
    and en: "en = takeWhile is_digit rest"
    by (auto simp: region_decoder_match_def Let_def split: if_splits prod.splits)
  from start_group_chars [OF sg] show "list_all is_digit (filter (\<lambda>c. c \<noteq> CHR ''-'') st)"
    by (auto simp: list_all_iff)
  show "list_all is_digit en"
    unfolding en by (auto simp: list_all_iff dest: set_takeWhileD)
qed

lemma match_None_iff: "region_decoder_match s = None \<longleftrightarrow> s = [] \<or> \<not> is_word (hd s)"
  by (auto simp: region_decoder_match_def Let_def takeWhile_eq_Nil_iff split: prod.splits)

lemma match_Some_name:
  assumes "region_decoder_match s = Some (name, st, en)"
  shows "name \<noteq> [] \<and> list_all is_word name"
proof -
  from assms have "name = takeWhile is_word s" "takeWhile is_word s \<noteq> []"
    by (auto simp: region_decoder_match_def Let_def split: if_splits prod.splits)
  then show ?thesis
    by (auto simp: list_all_iff dest: set_takeWhileD)
qed

lemma match_bare_name:
  assumes "name \<noteq> []" "list_all is_word name"
  shows "region_decoder_match name = Some (name, [], [])"
proof -
  have t: "takeWhile is_word name = name" and d: "dropWhile is_word name = []"
    using assms(2) by (simp_all add: list_all_iff)
  show ?thesis
    unfolding region_decoder_match_def t d
    by (simp add: assms(1) start_group_digits)
qed

lemma match_name_end:
  assumes "name \<noteq> []" "list_all is_word name" "list_all is_digit e"
  shows "region_decoder_match (name @ CHR '':'' # e) = Some (name, [], e)"
  using match_canonical [OF assms(1,2) _ assms(3), of "[]"] by simp

lemma py_str_nonneg: "0 \<le> i \<Longrightarrow> py_str i = dec_str (nat i)"
  by (simp add: py_str_def)

lemma parse_regions_single:
  "parse_regions [s] ref_lengths =
     (case decode_region s ref_lengths of Inl e \<Rightarrow> Inl e | Inr r \<Rightarrow> Inr [r])"
  by (simp add: parse_regions_def split: sum.splits)



lemma decode_region_canonical:
  assumes "name \<noteq> []" "list_all is_word name"
    and "list_all (\<lambda>g. g \<noteq> [] \<and> list_all is_digit g) gs" "list_all is_digit e"
  shows "decode_region (name @ CHR '':'' # concat (map (\<lambda>g. g @ ''-'') gs) @ e) ref_lengths =
    (if 4300 < length (concat gs) \<or> 4300 < length e then Inl ValueError
     else if e = [] then
       (case ref_lengths of
          None \<Rightarrow> Inr (Region name (int (digits_value (concat gs))) None)
        | Some lens \<Rightarrow>
            (case lens name of
               None \<Rightarrow> Inl KeyError
             | Some v \<Rightarrow> Inr (Region name (int (digits_value (concat gs))) (Some v))))
     else Inr (Region name (int (digits_value (concat gs))) (Some (int (digits_value e)))))"
  unfolding decode_region_eq match_canonical [OF assms]
  by (simp only: option.case prod.case filter_dash_groups [OF assms(3)])

lemma digit_one [simp]: "is_digit CHR ''1''"
  by (simp add: is_digit_def)

lemma ecoli_word: "list_all is_word ''Ecoli''" and ecoli_nonempty: "''Ecoli'' \<noteq> []"
  by (simp_all add: is_word_def)

text \<open>
  C10, as stated, fails: with a first group of 4300 digits and a second group of one
  digit the start has 4301 digits, and \<^verbatim>\<open>int\<close> raises ValueError.
\<close>

theorem digit_groups_over_limit:
  "parse_regions [''Ecoli:'' @ replicate 4300 CHR ''1'' @ ''-1-300''] None = Inl ValueError"
proof -
  let ?gs = "[replicate 4300 CHR ''1'', ''1'']"
  have s: "''Ecoli:'' @ replicate 4300 CHR ''1'' @ ''-1-300''
    = ''Ecoli'' @ CHR '':'' # concat (map (\<lambda>g. g @ ''-'') ?gs) @ ''300''"
    by simp
  have g: "list_all (\<lambda>g. g \<noteq> [] \<and> list_all is_digit g) ?gs"
    by (simp add: list_all_iff)
  have e: "list_all is_digit ''300''"
    by (simp add: is_digit_def)
  have l: "4300 < length (concat ?gs)"
    by simp
  have "decode_region (''Ecoli:'' @ replicate 4300 CHR ''1'' @ ''-1-300'') None = Inl ValueError"
    unfolding s decode_region_canonical [OF ecoli_nonempty ecoli_word g e] using l by simp
  then show ?thesis
    by (simp only: parse_regions_single sum.case)
qed

text \<open>
  C10, amended. A region string made of a name, a colon, one or more groups of digits each
  closed by a dash, and a final run of digits is decoded to the Region whose start is the
  number written by the digits of all the groups, concatenated, and whose end is the
  number written by the final digits, as long as neither has more than 4300 digits;
  otherwise \<^verbatim>\<open>int\<close> raises ValueError. For \<^verbatim>\<open>Ecoli:100-200-300\<close> the result is
  \<^verbatim>\<open>Region(ref_name='Ecoli', start=100200, end=300)\<close>.
\<close>

theorem parse_regions_digit_groups:
  assumes "name \<noteq> []" and "list_all is_word name"
    and "gs \<noteq> []" and "list_all (\<lambda>g. g \<noteq> [] \<and> list_all is_digit g) gs"
    and "e \<noteq> []" and "list_all is_digit e"
  shows "parse_regions [name @ '':'' @ concat (map (\<lambda>g. g @ ''-'') gs) @ e] ref_lengths =
    (if length (concat gs) \<le> 4300 \<and> length e \<le> 4300
     then Inr [Region name (int (digits_value (concat gs))) (Some (int (digits_value e)))]
     else Inl ValueError)"
  using decode_region_canonical [OF assms(1,2,4,6), of ref_lengths] assms(5)
  by (auto simp: parse_regions_single)

theorem parse_regions_digit_groups_witness:
  "parse_regions [''Ecoli:100-200-300''] None = Inr [Region ''Ecoli'' 100200 (Some 300)]"
  using parse_regions_digit_groups [of "''Ecoli''" "[''100'', ''200'']" "''300''" None]
  by (simp add: is_word_def is_digit_def digits_value_def)

text \<open>
  C6, as stated, fails: the end of the string below is absent and \<open>Ecoli\<close> is a key of
  the map, but the start has 4301 digits and \<^verbatim>\<open>int\<close> raises ValueError before the
  map is looked at.
\<close>

theorem long_start_raises_before_lookup:
  "region_decoder_match (''Ecoli:'' @ replicate 4301 CHR ''1'' @ ''-'')
     = Some (''Ecoli'', replicate 4301 CHR ''1'' @ ''-'', []) \<and>
   parse_regions [''Ecoli:'' @ replicate 4301 CHR ''1'' @ ''-''] (Some [''Ecoli'' \<mapsto> 4800000])
     = Inl ValueError"
proof -
  let ?gs = "[replicate 4301 CHR ''1'']"
  have s: "''Ecoli:'' @ replicate 4301 CHR ''1'' @ ''-''
    = ''Ecoli'' @ CHR '':'' # concat (map (\<lambda>g. g @ ''-'') ?gs) @ []"
    by simp
  have g: "list_all (\<lambda>g. g \<noteq> [] \<and> list_all is_digit g) ?gs"
    by (simp add: list_all_iff)
  have e: "list_all is_digit []"
    by simp
  have m: "region_decoder_match (''Ecoli:'' @ replicate 4301 CHR ''1'' @ ''-'')
     = Some (''Ecoli'', replicate 4301 CHR ''1'' @ ''-'', [])"
    unfolding s match_canonical [OF ecoli_nonempty ecoli_word g e] by simp
  have l: "4300 < length (concat ?gs)"
    by simp
  have "decode_region (''Ecoli:'' @ replicate 4301 CHR ''1'' @ ''-'') (Some [''Ecoli'' \<mapsto> 4800000])
    = Inl ValueError"
    unfolding s decode_region_canonical [OF ecoli_nonempty ecoli_word g e] using l by simp
  then show ?thesis
    using m by (simp only: parse_regions_single sum.case simp_thms)
qed

text \<open>
  C6, amended. When the decoded end of a region string is absent, its start has at most
  4300 digits and a map of reference lengths is given, the end of the Region is the length
  the map gives for the reference name, and \<^verbatim>\<open>parse_regions\<close> raises KeyError exactly
  when the name is not a key of the map. A start of more than 4300 digits raises
  ValueError before the map is looked at.
\<close>

theorem parse_regions_end_from_ref_lengths:
  assumes "region_decoder_match s = Some (name, start_s, [])"
  shows "parse_regions [s] (Some lens) =
       (if 4300 < length (filter (\<lambda>c. c \<noteq> CHR ''-'') start_s) then Inl ValueError
        else (case lens name of
                None \<Rightarrow> Inl KeyError
              | Some v \<Rightarrow>
                  Inr [Region name (int (digits_value (filter (\<lambda>c. c \<noteq> CHR ''-'') start_s)))
                         (Some v)])) \<and>
     (parse_regions [s] (Some lens) = Inl KeyError \<longleftrightarrow>
        lens name = None \<and> length (filter (\<lambda>c. c \<noteq> CHR ''-'') start_s) \<le> 4300)"
  by (auto simp: parse_regions_single decode_region_eq assms split: option.splits)

theorem parse_regions_end_from_ref_lengths_witness:
  "parse_regions [''Ecoli:500-''] (Some [''Ecoli'' \<mapsto> 4800000])
     = Inr [Region ''Ecoli'' 500 (Some 4800000)] \<and>
   parse_regions [''Ecoli:500-''] (Some [''chr1'' \<mapsto> 4800000]) = Inl KeyError"
proof -
  have m: "region_decoder_match ''Ecoli:500-'' = Some (''Ecoli'', ''500-'', [])"
    by (simp add: region_decoder_match_def start_group.simps is_word_def is_digit_def)
  have f: "filter (\<lambda>c. c \<noteq> CHR ''-'') ''500-'' = ''500''"
    by simp
  have v: "digits_value ''500'' = 500"
    by (simp add: digits_value_def)
  show ?thesis
    using parse_regions_end_from_ref_lengths [OF m, of "[''Ecoli'' \<mapsto> 4800000]"]
      parse_regions_end_from_ref_lengths [OF m, of "[''chr1'' \<mapsto> 4800000]"]
    unfolding f v by simp
qed


lemma py_str_nat: "py_str (int n) = dec_str n"
  by (simp add: py_str_def)

lemma decode_serialized:
  assumes "name \<noteq> []" "list_all is_word name" "length (dec_str n) \<le> 4300"
    and "case eo of None \<Rightarrow> True | Some e \<Rightarrow> length (dec_str e) \<le> 4300"
  shows "decode_region (serialize_region (Region name (int n) (map_option int eo))) None
    = Inr (Region name (int n) (map_option int eo))"
proof -
  let ?E = "case eo of None \<Rightarrow> [] | Some e \<Rightarrow> dec_str e"
  have g: "list_all (\<lambda>g. g \<noteq> [] \<and> list_all is_digit g) [dec_str n]"
    by (simp add: dec_str_nonempty dec_str_digits)
  have e: "list_all is_digit ?E"
    by (simp add: dec_str_digits split: option.splits)
  have s: "serialize_region (Region name (int n) (map_option int eo))
    = name @ CHR '':'' # concat (map (\<lambda>g. g @ ''-'') [dec_str n]) @ ?E"
    by (simp add: serialize_region_def py_str_nat split: option.splits)
  show ?thesis
    unfolding s decode_region_canonical [OF assms(1,2) g e]
    using assms(3,4)
    by (simp add: digits_value_dec_str dec_str_nonempty split: option.splits)
qed

lemma decode_serialized_short:
  assumes "name \<noteq> []" "list_all is_word name" "length (dec_str n) \<le> 4300"
    and "case eo of None \<Rightarrow> True | Some e \<Rightarrow> length (dec_str e) \<le> 4300"
  shows "decode_region (serialize_region_short (Region name (int n) (map_option int eo))) None
    = Inr (Region name (int n) (map_option int eo))"
proof (cases "n = 0")
  case False
  have "serialize_region_short (Region name (int n) (map_option int eo))
    = serialize_region (Region name (int n) (map_option int eo))"
    using False by (simp add: serialize_region_short_def serialize_region_def split: option.splits)
  then show ?thesis
    using decode_serialized [OF assms] by simp
next
  case True
  show ?thesis
  proof (cases eo)
    case None
    then show ?thesis
      using True match_bare_name [OF assms(1,2)]
      by (simp add: serialize_region_short_def decode_region_eq digits_value_Nil)
  next
    case (Some e)
    with assms(4) have "length (dec_str e) \<le> 4300" by simp
    then show ?thesis
      using True Some match_name_end [OF assms(1,2) dec_str_digits, of e]
      by (simp add: serialize_region_short_def decode_region_eq py_str_nat digits_value_Nil
          digits_value_dec_str dec_str_nonempty)
  qed
qed

lemma decode_success_shape:
  assumes "decode_region s None = Inr r"
  shows "\<exists>name n eo. r = Region name (int n) (map_option int eo) \<and>
    name \<noteq> [] \<and> list_all is_word name \<and> length (dec_str n) \<le> 4300 \<and>
    (case eo of None \<Rightarrow> True | Some e \<Rightarrow> length (dec_str e) \<le> 4300)"
proof -
  from assms obtain name st en where m: "region_decoder_match s = Some (name, st, en)"
    by (cases "region_decoder_match s") (auto simp: decode_region_eq)
  let ?F = "filter (\<lambda>c. c \<noteq> CHR ''-'') st"
  define n where "n = digits_value ?F"
  define eo where "eo = (if en = [] then None else Some (digits_value en))"
  from assms m have l: "length ?F \<le> 4300" "length en \<le> 4300"
    and r: "r = Region name (int n) (map_option int eo)"
    by (auto simp: decode_region_eq n_def eo_def split: if_splits)
  have "length (dec_str n) \<le> 4300"
  proof (cases "?F = []")
    case True
    then show ?thesis by (simp add: n_def digits_value_Nil dec_str_0_length)
  next
    case False
    from dec_str_digits_value_length [OF match_Some_digits(1) [OF m] False] l(1)
    show ?thesis by (simp add: n_def)
  qed
  moreover have "case eo of None \<Rightarrow> True | Some e \<Rightarrow> length (dec_str e) \<le> 4300"
  proof (cases "en = []")
    case True
    then show ?thesis by (simp add: eo_def)
  next
    case False
    from dec_str_digits_value_length [OF match_Some_digits(2) [OF m] False] l(2)
    show ?thesis using False by (simp add: eo_def)
  qed
  ultimately show ?thesis
    using r match_Some_name [OF m] by blast
qed

text \<open>
  C7. A Region that \<^verbatim>\<open>parse_regions\<close> returns for a string, written back as a region
  string (in the full form or in the shortest form of the grammar), is decoded to the
  same Region.
\<close>

theorem region_round_trip:
  assumes "parse_regions [s] None = Inr [r]"
  shows "parse_regions [serialize_region r] None = Inr [r] \<and>
    parse_regions [serialize_region_short r] None = Inr [r]"
proof -
  from assms have d: "decode_region s None = Inr r"
    by (simp add: parse_regions_single split: sum.splits)
  from decode_success_shape [OF d] obtain name n eo
    where r: "r = Region name (int n) (map_option int eo)"
      and h: "name \<noteq> []" "list_all is_word name" "length (dec_str n) \<le> 4300"
        "case eo of None \<Rightarrow> True | Some e \<Rightarrow> length (dec_str e) \<le> 4300"
    by blast
  show ?thesis
    unfolding r parse_regions_single
    by (simp add: decode_serialized [OF h] decode_serialized_short [OF h])
qed

lemma decode_ecoli_1000:
  "decode_region ''Ecoli:1000'' None = Inr (Region ''Ecoli'' 0 (Some 1000))"
proof -
  have m: "region_decoder_match ''Ecoli:1000'' = Some (''Ecoli'', [], ''1000'')"
    by (simp add: region_decoder_match_def start_group.simps is_word_def is_digit_def)
  have v: "digits_value ''1000'' = 1000"
    by (simp add: digits_value_def)
  show ?thesis
    unfolding decode_region_eq m by (simp add: v digits_value_Nil)
qed

theorem region_round_trip_witness:
  "parse_regions [''Ecoli:1000''] None = Inr [Region ''Ecoli'' 0 (Some 1000)] \<and>
   serialize_region (Region ''Ecoli'' 0 (Some 1000)) = ''Ecoli:0-1000'' \<and>
   serialize_region_short (Region ''Ecoli'' 0 (Some 1000)) = ''Ecoli:1000'' \<and>
   parse_regions [''Ecoli:0-1000''] None = Inr [Region ''Ecoli'' 0 (Some 1000)]"
proof -
  have p: "parse_regions [''Ecoli:1000''] None = Inr [Region ''Ecoli'' 0 (Some 1000)]"
    by (simp add: parse_regions_single decode_ecoli_1000)
  have s: "serialize_region (Region ''Ecoli'' 0 (Some 1000)) = ''Ecoli:0-1000''"
    by (simp add: serialize_region_def py_str_def dec_str.simps)
  have t: "serialize_region_short (Region ''Ecoli'' 0 (Some 1000)) = ''Ecoli:1000''"
    by (simp add: serialize_region_short_def py_str_def dec_str.simps)
  from region_round_trip [OF p] show ?thesis
    using p s t by simp
qed

lemma parse_regions_loop_eq:
  "parse_regions_loop regions ref_lengths decoded =
     (case dropWhile (\<lambda>s. \<not> isl (decode_region s ref_lengths)) regions of
        [] \<Rightarrow> Inr (decoded @ map (\<lambda>s. projr (decode_region s ref_lengths)) regions)
      | s # rest \<Rightarrow> Inl (projl (decode_region s ref_lengths)))"
proof (induction regions arbitrary: decoded)
  case Nil
  then show ?case by simp
next
  case (Cons s regions)
  show ?case
  proof (cases "decode_region s ref_lengths")
    case (Inl e)
    then show ?thesis by simp
  next
    case (Inr r)
    then show ?thesis
      by (cases "dropWhile (\<lambda>s. \<not> isl (decode_region s ref_lengths)) regions")
        (simp_all only: parse_regions_loop.simps sum.case Cons.IH list.case dropWhile.simps
          sum.disc not_False_eq_True if_False if_True append_assoc append.simps list.map sum.sel)
  qed
qed

lemma isl_decode_region:
  "isl (decode_region s ref_lengths) \<longleftrightarrow>
     (case region_decoder_match s of
        None \<Rightarrow> True
      | Some (name, start_s, end_s) \<Rightarrow>
          4300 < length (filter (\<lambda>c. c \<noteq> CHR ''-'') start_s) \<or> 4300 < length end_s \<or>
          (end_s = [] \<and> (case ref_lengths of None \<Rightarrow> False | Some lens \<Rightarrow> lens name = None)))"
  by (auto simp: decode_region_eq split: option.splits)

lemma decode_region_AttributeError:
  "decode_region s ref_lengths = Inl AttributeError \<longleftrightarrow> s = [] \<or> \<not> is_word (hd s)"
  using match_None_iff [of s] by (auto simp: decode_region_eq split: option.splits)

text \<open>
  C3, as stated, fails: \<^verbatim>\<open>Ecoli:abc\<close> is not a string of the grammar, and
  \<^verbatim>\<open>parse_regions\<close> returns a Region for it, decoded from the prefix \<^verbatim>\<open>Ecoli:\<close>.
\<close>

theorem malformed_region_accepted:
  "\<not> spec_region_grammar ''Ecoli:abc'' \<and>
   parse_regions [''Ecoli:abc''] None = Inr [Region ''Ecoli'' 0 None]"
proof -
  have m: "region_decoder_match ''Ecoli:abc'' = Some (''Ecoli'', [], [])"
    by (simp add: region_decoder_match_def start_group.simps is_word_def is_digit_def)
  have "decode_region ''Ecoli:abc'' None = Inr (Region ''Ecoli'' 0 None)"
    unfolding decode_region_eq m by (simp add: digits_value_Nil)
  moreover have "\<not> spec_region_grammar ''Ecoli:abc''"
    by (simp add: spec_region_grammar_def spec_position_def is_word_def is_digit_def)
  ultimately show ?thesis
    by (simp add: parse_regions_single)
qed

text \<open>
  C3, amended. \<^verbatim>\<open>parse_regions\<close> raises on a batch exactly when one of its strings
  cannot be decoded; the exception is that of the first such string, and no Region of the
  batch is returned. Otherwise it returns one Region per string, in order. A string
  cannot be decoded exactly when it does not begin with a word character (there is no
  match, and AttributeError is raised, which does not name the string), or its start or
  its end has more than 4300 digits (ValueError), or its end is absent and a map of
  reference lengths is given that lacks its name (KeyError). Every other string yields a
  Region decoded from the prefix that the regular expression matches, whatever follows.
\<close>

theorem parse_regions_raises_iff:
  "parse_regions regions ref_lengths =
     (case dropWhile (\<lambda>s. \<not> isl (decode_region s ref_lengths)) regions of
        [] \<Rightarrow> Inr (map (\<lambda>s. projr (decode_region s ref_lengths)) regions)
      | s # rest \<Rightarrow> Inl (projl (decode_region s ref_lengths))) \<and>
   (isl (parse_regions regions ref_lengths) \<longleftrightarrow>
      (\<exists>s\<in>set regions. isl (decode_region s ref_lengths))) \<and>
   (\<forall>s. isl (decode_region s ref_lengths) \<longleftrightarrow>
      (case region_decoder_match s of
         None \<Rightarrow> True
       | Some (name, start_s, end_s) \<Rightarrow>
           4300 < length (filter (\<lambda>c. c \<noteq> CHR ''-'') start_s) \<or> 4300 < length end_s \<or>
           (end_s = [] \<and>
            (case ref_lengths of None \<Rightarrow> False | Some lens \<Rightarrow> lens name = None)))) \<and>
   (\<forall>s. region_decoder_match s = None \<longleftrightarrow> s = [] \<or> \<not> is_word (hd s)) \<and>
   (\<forall>s. decode_region s ref_lengths = Inl AttributeError \<longleftrightarrow> s = [] \<or> \<not> is_word (hd s))"
proof (intro conjI allI)
  show e: "parse_regions regions ref_lengths =
     (case dropWhile (\<lambda>s. \<not> isl (decode_region s ref_lengths)) regions of
        [] \<Rightarrow> Inr (map (\<lambda>s. projr (decode_region s ref_lengths)) regions)
      | s # rest \<Rightarrow> Inl (projl (decode_region s ref_lengths)))"
    by (cases "dropWhile (\<lambda>s. \<not> isl (decode_region s ref_lengths)) regions")
      (simp_all only: parse_regions_def parse_regions_loop_eq list.case append.simps)
  show "isl (parse_regions regions ref_lengths) \<longleftrightarrow>
      (\<exists>s\<in>set regions. isl (decode_region s ref_lengths))"
  proof (cases "dropWhile (\<lambda>s. \<not> isl (decode_region s ref_lengths)) regions")
    case Nil
    have "\<not> isl (parse_regions regions ref_lengths)"
      by (simp only: e Nil list.case sum.disc not_False_eq_True)
    moreover from Nil have "\<forall>s\<in>set regions. \<not> isl (decode_region s ref_lengths)"
      by simp
    ultimately show ?thesis by blast
  next
    case (Cons a list)
    have "isl (parse_regions regions ref_lengths)"
      by (simp only: e Cons list.case sum.disc)
    moreover have "a \<in> set regions"
      using set_dropWhileD [of a "\<lambda>s. \<not> isl (decode_region s ref_lengths)" regions] Cons
      by simp
    moreover from Cons have "isl (decode_region a ref_lengths)"
      by (simp add: dropWhile_eq_Cons_conv)
    ultimately show ?thesis by blast
  qed
qed (rule isl_decode_region match_None_iff decode_region_AttributeError)+

lemma decode_bare_ecoli:
  "decode_region ''Ecoli'' (Some Map.empty) = Inl KeyError"
proof -
  have m: "region_decoder_match ''Ecoli'' = Some (''Ecoli'', [], [])"
    using match_bare_name [OF ecoli_nonempty ecoli_word] .
  show ?thesis
    unfolding decode_region_eq m by simp
qed

lemma decode_no_name:
  "decode_region '':1000'' ref_lengths = Inl AttributeError"
  by (simp add: decode_region_AttributeError is_word_def)

theorem parse_regions_raises_iff_witness:
  "parse_regions [''Ecoli:1000'', '':1000''] None = Inl AttributeError \<and>
   parse_regions [''Ecoli'', '':1000''] (Some Map.empty) = Inl KeyError \<and>
   parse_regions [''Ecoli:1000'', ''Ecoli:abc''] None
     = Inr [Region ''Ecoli'' 0 (Some 1000), Region ''Ecoli'' 0 None]"
proof -
  have m: "region_decoder_match ''Ecoli:abc'' = Some (''Ecoli'', [], [])"
    by (simp add: region_decoder_match_def start_group.simps is_word_def is_digit_def)
  have a: "decode_region ''Ecoli:abc'' None = Inr (Region ''Ecoli'' 0 None)"
    unfolding decode_region_eq m by (simp add: digits_value_Nil)
  have 1: "parse_regions [''Ecoli:1000'', '':1000''] None = Inl AttributeError"
    using parse_regions_raises_iff [of "[''Ecoli:1000'', '':1000'']" None]
    by (simp add: decode_ecoli_1000 decode_no_name)
  have 2: "parse_regions [''Ecoli'', '':1000''] (Some Map.empty) = Inl KeyError"
    using parse_regions_raises_iff [of "[''Ecoli'', '':1000'']" "Some Map.empty"]
    by (simp add: decode_bare_ecoli)
  have 3: "parse_regions [''Ecoli:1000'', ''Ecoli:abc''] None
     = Inr [Region ''Ecoli'' 0 (Some 1000), Region ''Ecoli'' 0 None]"
    using parse_regions_raises_iff [of "[''Ecoli:1000'', ''Ecoli:abc'']" None]
    by (simp add: decode_ecoli_1000 a)
  from 1 2 3 show ?thesis by simp
qed

end
